theory Spec2Isabelle
  imports Main
begin

section \<open>Strings\<close>

text \<open>
  A JavaScript string is modelled as a \<^typ>\<open>string\<close>: a sequence of code units below
  256. The functions below are \<open>String.prototype.toLowerCase\<close>,
  \<open>String.prototype.trim\<close>, \<open>replace(/\s+/g, '.')\<close>, \<open>Array.prototype.join\<close> and the
  decimal rendering of a number inside a template string. Below 256 the upper-case
  letters are \<open>A\<close> to \<open>Z\<close> and U+00C0 to U+00DE without U+00D7, and the white space of
  \<open>trim\<close> and of \<open>\s\<close> is U+0009 to U+000D, U+0020 and U+00A0.
\<close>

definition upper_letters :: string where
  "upper_letters =
     ''ABCDEFGHIJKLMNOPQRSTUVWXYZ'' @
     [CHR 0xC0, CHR 0xC1, CHR 0xC2, CHR 0xC3, CHR 0xC4, CHR 0xC5, CHR 0xC6, CHR 0xC7,
     CHR 0xC8, CHR 0xC9, CHR 0xCA, CHR 0xCB, CHR 0xCC, CHR 0xCD, CHR 0xCE, CHR 0xCF, CHR
     0xD0, CHR 0xD1, CHR 0xD2, CHR 0xD3, CHR 0xD4, CHR 0xD5, CHR 0xD6, CHR 0xD8, CHR
     0xD9, CHR 0xDA, CHR 0xDB, CHR 0xDC, CHR 0xDD, CHR 0xDE]"

definition lower_letters :: string where
  "lower_letters =
     ''abcdefghijklmnopqrstuvwxyz'' @
     [CHR 0xE0, CHR 0xE1, CHR 0xE2, CHR 0xE3, CHR 0xE4, CHR 0xE5, CHR 0xE6, CHR 0xE7,
     CHR 0xE8, CHR 0xE9, CHR 0xEA, CHR 0xEB, CHR 0xEC, CHR 0xED, CHR 0xEE, CHR 0xEF, CHR
     0xF0, CHR 0xF1, CHR 0xF2, CHR 0xF3, CHR 0xF4, CHR 0xF5, CHR 0xF6, CHR 0xF8, CHR
     0xF9, CHR 0xFA, CHR 0xFB, CHR 0xFC, CHR 0xFD, CHR 0xFE]"

definition toLowerChar :: "char \<Rightarrow> char" where
  "toLowerChar c =
     (case map_of (zip upper_letters lower_letters) c of
        None \<Rightarrow> c
      | Some l \<Rightarrow> l)"

definition toLowerCase :: "string \<Rightarrow> string" where
  "toLowerCase s = map toLowerChar s"

definition is_space :: "char \<Rightarrow> bool" where
  "is_space c =
     (c \<in> set [CHR 0x09, CHR 0x0A, CHR 0x0B, CHR 0x0C, CHR 0x0D, CHR 0x20, CHR 0xA0])"

definition trim :: "string \<Rightarrow> string" where
  "trim s = rev (dropWhile is_space (rev (dropWhile is_space s)))"

function replace_spaces :: "string \<Rightarrow> string" where
  "replace_spaces [] = []"
| "replace_spaces (c # cs) =
     (if is_space c then CHR ''.'' # replace_spaces (dropWhile is_space cs)
      else c # replace_spaces cs)"
  by pat_completeness auto
termination
  by (relation "measure length") (auto simp: length_dropWhile_le less_Suc_eq_le)

fun join :: "string \<Rightarrow> string list \<Rightarrow> string" where
  "join sep [] = []"
| "join sep [x] = x"
| "join sep (x # y # ys) = x @ sep @ join sep (y # ys)"

fun digits :: "nat \<Rightarrow> string" where
  "digits n =
     (if n < 10 then [''0123456789'' ! n]
      else digits (n div 10) @ [''0123456789'' ! (n mod 10)])"

declare digits.simps [simp del]

definition number_to_string :: "int \<Rightarrow> string" where
  "number_to_string i = (if i < 0 then CHR ''-'' # digits (nat (- i)) else digits (nat i))"

section \<open>The DOM seen by the selector generator\<close>

text \<open>
  A DOM node is an element (with its \<open>nodeName\<close>, \<open>id\<close>, \<open>className\<close> and child
  nodes), a document, or a text node. The \<open>className\<close> of an HTML element is a string;
  the \<open>className\<close> of an SVG element is an \<open>SVGAnimatedString\<close> object, which is truthy
  whatever it holds and has no \<open>trim\<close> method. An element reference is a tree together
  with the path of child indices that leads from the root of the tree to the node; the
  root is a document for an attached element and an element for a detached subtree. A
  path that leads nowhere stands for \<open>null\<close>.
\<close>

datatype class_name = ClassString string | SVGAnimatedString string

datatype node =
    Element string string class_name "node list"
  | Document "node list"
  | Text string

definition ELEMENT_NODE :: nat where
  "ELEMENT_NODE = 1"

fun nodeType :: "node \<Rightarrow> nat" where
  "nodeType (Element nm i cls cs) = 1"
| "nodeType (Document cs) = 9"
| "nodeType (Text t) = 3"

fun nodeName :: "node \<Rightarrow> string" where
  "nodeName (Element nm i cls cs) = nm"
| "nodeName (Document cs) = ''#document''"
| "nodeName (Text t) = ''#text''"

text \<open>\<open>id\<close> is \<open>undefined\<close> on a node that is not an element; as the code only tests
  it for truthiness there, \<open>undefined\<close> is the empty string. \<open>className\<close> is read on
  elements only; on the other nodes it is given the falsy value.\<close>

fun id_attr :: "node \<Rightarrow> string" where
  "id_attr (Element nm i cls cs) = i"
| "id_attr (Document cs) = []"
| "id_attr (Text t) = []"

fun className :: "node \<Rightarrow> class_name" where
  "className (Element nm i cls cs) = cls"
| "className (Document cs) = ClassString []"
| "className (Text t) = ClassString []"

fun childNodes :: "node \<Rightarrow> node list" where
  "childNodes (Element nm i cls cs) = cs"
| "childNodes (Document cs) = cs"
| "childNodes (Text t) = []"

fun node_at :: "node \<Rightarrow> nat list \<Rightarrow> node option" where
  "node_at n [] = Some n"
| "node_at n (i # p) =
     (if i < length (childNodes n) then node_at (childNodes n ! i) p else None)"

definition parentNode :: "nat list \<Rightarrow> nat list option" where
  "parentNode p = (if p = [] then None else Some (butlast p))"

text \<open>\<open>parent.children\<close>: the element children of the parent, each identified by its
  index among the parent's child nodes.\<close>

definition children :: "node \<Rightarrow> nat list" where
  "children n =
     filter (\<lambda>i. nodeType (childNodes n ! i) = ELEMENT_NODE) [0 ..< length (childNodes n)]"

fun indexOf_from :: "int \<Rightarrow> 'a list \<Rightarrow> 'a \<Rightarrow> int" where
  "indexOf_from k [] x = - 1"
| "indexOf_from k (y # ys) x = (if y = x then k else indexOf_from (k + 1) ys x)"

definition indexOf :: "'a list \<Rightarrow> 'a \<Rightarrow> int" where
  "indexOf xs x = indexOf_from 0 xs x"

section \<open>Selector generator\<close>

text \<open>The fragment built for one node inside the \<open>while\<close> loop of
  \<open>generateCssSelector\<close>: lower-case node name, class suffix, \<open>:nth-child\<close> suffix.\<close>

definition sibling :: "node \<Rightarrow> nat list \<Rightarrow> nat list" where
  "sibling root p =
     (case parentNode p of
        None \<Rightarrow> []
      | Some pp \<Rightarrow> (case node_at root pp of None \<Rightarrow> [] | Some pe \<Rightarrow> children pe))"

text \<open>The exception of \<open>element.className.trim()\<close> on an object without that method.\<close>

definition className_error :: string where
  "className_error = ''element.className.trim is not a function''"

definition fragment :: "node \<Rightarrow> nat list \<Rightarrow> node \<Rightarrow> string + string" where
  "fragment root p el =
     (let selector = toLowerCase (nodeName el)
      in case className el of
           SVGAnimatedString b \<Rightarrow> Inl className_error
         | ClassString c \<Rightarrow>
             (let selector = (if c \<noteq> []
                              then selector @ ''.'' @ replace_spaces (trim c)
                              else selector)
              in if length (sibling root p) > 1
                 then Inr (selector @ '':nth-child('' @
                           number_to_string (indexOf (sibling root p) (last p) + 1) @ '')'')
                 else Inr selector))"

function selector_loop :: "node \<Rightarrow> nat list \<Rightarrow> string list \<Rightarrow> string + string list" where
  "selector_loop root p path =
     (case node_at root p of
        None \<Rightarrow> Inr path
      | Some el \<Rightarrow>
          if nodeType el \<noteq> ELEMENT_NODE then Inr path
          else
            (case fragment root p el of
               Inl e \<Rightarrow> Inl e
             | Inr selector \<Rightarrow>
                 let path = selector # path
                 in (case parentNode p of
                       None \<Rightarrow> Inr path
                     | Some pp \<Rightarrow>
                         (case node_at root pp of
                            None \<Rightarrow> Inr path
                          | Some pe \<Rightarrow>
                              if id_attr pe \<noteq> [] then Inr ((''#'' @ id_attr pe) # path)
                              else selector_loop root pp path))))"
  by pat_completeness auto
termination
  by (relation "measure (\<lambda>(root, p, path). length p)")
     (auto simp: parentNode_def split: if_splits)

declare selector_loop.simps [simp del]

text \<open>The result is the exception thrown, \<open>null\<close>, or the selector.\<close>

definition generateCssSelector :: "node \<Rightarrow> nat list \<Rightarrow> string + string option" where
  "generateCssSelector root p =
     (case node_at root p of
        None \<Rightarrow> Inr None
      | Some element \<Rightarrow>
          if nodeType element \<noteq> ELEMENT_NODE then Inr None
          else if id_attr element \<noteq> [] then Inr (Some (''#'' @ id_attr element))
          else (case selector_loop root p [] of
                  Inl e \<Rightarrow> Inl e
                | Inr path \<Rightarrow> Inr (Some (join '' > '' path))))"

subsection \<open>The selector as the specification describes it\<close>

text \<open>
  The walk written down without the loop, for a given rule \<open>suffix\<close> that turns the
  class attribute of a node into the class suffix of its fragment. The fragment of a
  node is its lower-case tag name, the class suffix, and, for a node whose parent has
  more than one element child, \<open>:nth-child(k)\<close> with \<open>k\<close> the 1-based position of the
  node among the element children of its parent. The walk covers the element and its
  ancestors up to, and excluding, the nearest ancestor that has an id or is not an
  element; the id of that ancestor, if it has one, goes in front.
\<close>

definition is_element :: "node \<Rightarrow> bool" where
  "is_element n = (nodeType n = ELEMENT_NODE)"

definition spec_position :: "node \<Rightarrow> nat \<Rightarrow> nat" where
  "spec_position parent i = Suc (length (filter is_element (take i (childNodes parent))))"

definition spec_has_siblings :: "node \<Rightarrow> bool" where
  "spec_has_siblings parent = (length (filter is_element (childNodes parent)) > 1)"

text \<open>The class attribute of a node: the string that \<open>className\<close> is on an HTML
  element, and the string that the \<open>SVGAnimatedString\<close> holds on an SVG element.\<close>

definition class_attribute :: "node \<Rightarrow> string" where
  "class_attribute n = (case className n of ClassString c \<Rightarrow> c | SVGAnimatedString c \<Rightarrow> c)"

definition spec_nth_child :: "node \<Rightarrow> nat list \<Rightarrow> string" where
  "spec_nth_child root p =
     (if p = [] then []
      else case node_at root (butlast p) of
             None \<Rightarrow> []
           | Some parent \<Rightarrow>
               if spec_has_siblings parent
               then '':nth-child('' @ digits (spec_position parent (last p)) @ '')''
               else [])"

definition spec_fragment :: "(string \<Rightarrow> string) \<Rightarrow> node \<Rightarrow> nat list \<Rightarrow> string" where
  "spec_fragment suffix root p =
     (case node_at root p of
        None \<Rightarrow> []
      | Some el \<Rightarrow>
          toLowerCase (nodeName el) @ suffix (class_attribute el) @ spec_nth_child root p)"

text \<open>The ancestors of the node at \<open>p\<close>, nearest first.\<close>

definition ancestors :: "nat list \<Rightarrow> nat list list" where
  "ancestors p = map (\<lambda>k. take k p) (rev [0 ..< length p])"

definition plain_element_at :: "node \<Rightarrow> nat list \<Rightarrow> bool" where
  "plain_element_at root q =
     (case node_at root q of None \<Rightarrow> False | Some n \<Rightarrow> is_element n \<and> id_attr n = [])"

text \<open>The nodes of the walk, the element first.\<close>

definition walked :: "node \<Rightarrow> nat list \<Rightarrow> nat list list" where
  "walked root p = p # takeWhile (plain_element_at root) (ancestors p)"

definition spec_anchor :: "node \<Rightarrow> nat list \<Rightarrow> string list" where
  "spec_anchor root p =
     (case dropWhile (plain_element_at root) (ancestors p) of
        [] \<Rightarrow> []
      | q # qs \<Rightarrow>
          (case node_at root q of
             None \<Rightarrow> []
           | Some n \<Rightarrow> if id_attr n \<noteq> [] then [''#'' @ id_attr n] else []))"

definition spec_selector :: "(string \<Rightarrow> string) \<Rightarrow> node \<Rightarrow> nat list \<Rightarrow> string" where
  "spec_selector suffix root p =
     join '' > ''
       (spec_anchor root p @ map (spec_fragment suffix root) (rev (walked root p)))"

text \<open>The class suffix as the specification words it: present when the class attribute
  is, a dot and the class attribute with a dot for every space.\<close>

definition dots_for_spaces :: "string \<Rightarrow> string" where
  "dots_for_spaces s = map (\<lambda>c. if c = CHR '' '' then CHR ''.'' else c) s"

definition spec_class_suffix :: "string \<Rightarrow> string" where
  "spec_class_suffix cls = (if cls = [] then [] else ''.'' @ dots_for_spaces cls)"

text \<open>The class names of a class attribute: its maximal runs of characters other than
  white space, in order. \<open>split_names cur s\<close> reads \<open>s\<close> with the class name \<open>cur\<close>
  begun.\<close>

fun split_names :: "string \<Rightarrow> string \<Rightarrow> string list" where
  "split_names cur [] = (if cur = [] then [] else [cur])"
| "split_names cur (c # cs) =
     (if is_space c
      then (if cur = [] then split_names [] cs else cur # split_names [] cs)
      else split_names (cur @ [c]) cs)"

definition class_names :: "string \<Rightarrow> string list" where
  "class_names s = split_names [] s"

text \<open>The class suffix made of the class names: present when the class attribute is, a
  dot and the class names joined by dots.\<close>

definition class_names_suffix :: "string \<Rightarrow> string" where
  "class_names_suffix cls = (if cls = [] then [] else ''.'' @ join ''.'' (class_names cls))"

text \<open>The nodes whose \<open>className\<close> is a string.\<close>

definition string_class_at :: "node \<Rightarrow> nat list \<Rightarrow> bool" where
  "string_class_at root q =
     (case node_at root q of
        None \<Rightarrow> False
      | Some n \<Rightarrow> (case className n of ClassString c \<Rightarrow> True | SVGAnimatedString c \<Rightarrow> False))"

text \<open>A class attribute whose names are separated by single spaces, with no other white
  space in it.\<close>

fun single_spaced :: "string \<Rightarrow> bool" where
  "single_spaced [] = True"
| "single_spaced [c] = (\<not> is_space c)"
| "single_spaced (c # d # cs) =
     ((is_space c \<longrightarrow> c = CHR '' '' \<and> \<not> is_space d) \<and> single_spaced (d # cs))"

section \<open>Domain guard\<close>

text \<open>
  An exception is represented by its message, the only part of it the crawler reads.
  The \<open>URL\<close> class belongs to the runtime, not to the repository: its constructor is a
  parameter, taking the input and the optional base and either throwing or returning
  the parsed URL.
\<close>

type_synonym error = string

record URL =
  protocol :: string
  hostname :: string
  pathname :: string

type_synonym url_class = "string \<Rightarrow> string option \<Rightarrow> error + URL"

definition isSameDomain :: "url_class \<Rightarrow> string \<Rightarrow> string \<Rightarrow> bool" where
  "isSameDomain new_URL currentUrl newUrl =
     (case new_URL currentUrl None of
        Inl e \<Rightarrow> False
      | Inr current \<Rightarrow>
          (case new_URL newUrl (Some currentUrl) of
             Inl e \<Rightarrow> False
           | Inr newLink \<Rightarrow> hostname current = hostname newLink))"

section \<open>The browser session\<close>

text \<open>
  The WebDriver session is a collaborator too. Its commands change the state \<open>'b\<close> of
  the browser and may throw; its queries read the state and may throw. \<open>'e\<close> is the
  type of element handles. The commands, as the crawler issues them:
  \<^item> \<open>Get url\<close>: \<open>driver.get(url)\<close>;
  \<^item> \<open>WaitBodyLocated\<close>: \<open>driver.wait(until.elementLocated(By.css('body')), 10000)\<close>;
  \<^item> \<open>ScrollIntoView e\<close>: \<open>driver.executeScript("arguments[0].scrollIntoView(true);", e)\<close>;
  \<^item> \<open>WaitVisible e\<close>, \<open>WaitEnabled e\<close>: \<open>driver.wait(until.elementIsVisible(e), 5000)\<close>
    and \<open>driver.wait(until.elementIsEnabled(e), 5000)\<close>;
  \<^item> \<open>Click e\<close>: \<open>e.click()\<close>; \<open>Sleep\<close>: \<open>driver.sleep(2000)\<close>;
  \<^item> \<open>NavigateBack\<close>, \<open>NavigateRefresh\<close>: \<open>driver.navigate().back()\<close> and
    \<open>driver.navigate().refresh()\<close>;
  \<^item> \<open>WaitUrlIs u\<close>: \<open>driver.wait(until.urlIs(u), 5000)\<close>.

  The queries: \<open>bodyInnerText\<close> is the script \<open>return document.body.innerText;\<close>,
  \<open>findClickable\<close> is \<open>findElements\<close> with the XPath of \<open>listClickableItems\<close>,
  \<open>getTagName\<close>, \<open>getText\<close> and \<open>getAttribute_href\<close> read an element
  (\<open>getAttribute('href')\<close> returns \<open>null\<close> for a missing attribute), \<open>findElement\<close> is
  \<open>driver.findElement(By.css(selector))\<close>, and \<open>domNode\<close> is the DOM node an element
  handle stands for when the selector script receives it as its argument.
\<close>

datatype 'e action =
    Get string
  | WaitBodyLocated
  | ScrollIntoView 'e
  | WaitVisible 'e
  | WaitEnabled 'e
  | Click 'e
  | Sleep
  | NavigateBack
  | NavigateRefresh
  | WaitUrlIs string

record ('b, 'e) env =
  perform :: "'e action \<Rightarrow> 'b \<Rightarrow> (error + unit) \<times> 'b"
  bodyInnerText :: "'b \<Rightarrow> error + string"
  findClickable :: "'b \<Rightarrow> error + 'e list"
  getTagName :: "'b \<Rightarrow> 'e \<Rightarrow> error + string"
  getText :: "'b \<Rightarrow> 'e \<Rightarrow> error + string"
  getAttribute_href :: "'b \<Rightarrow> 'e \<Rightarrow> error + string option"
  domNode :: "'b \<Rightarrow> 'e \<Rightarrow> error + node \<times> nat list"
  findElement :: "'b \<Rightarrow> string option \<Rightarrow> error + 'e"
  getCurrentUrl :: "'b \<Rightarrow> error + string"
  new_URL :: url_class

section \<open>The database\<close>

text \<open>The three tables, rows in insertion order. \<open>INSERT OR IGNORE\<close> leaves the table
  as it is when the new row would break the table's \<open>UNIQUE\<close> constraint.\<close>

record clickable_node =
  page_url :: string
  tag_name :: string
  text_content :: string
  href_column :: string
  onclick :: string
  other_attributes :: string

record database =
  visited_urls :: "string list"
  page_contents :: "(string \<times> string) list"
  clickable_nodes :: "clickable_node list"

definition insert_visited_url :: "string \<Rightarrow> database \<Rightarrow> database" where
  "insert_visited_url url d =
     (if url \<in> set (visited_urls d) then d
      else d\<lparr>visited_urls := visited_urls d @ [url]\<rparr>)"

definition insert_page_content :: "string \<Rightarrow> string \<Rightarrow> database \<Rightarrow> database" where
  "insert_page_content url content d =
     (if url \<in> set (map fst (page_contents d)) then d
      else d\<lparr>page_contents := page_contents d @ [(url, content)]\<rparr>)"

definition same_key :: "clickable_node \<Rightarrow> clickable_node \<Rightarrow> bool" where
  "same_key r r' = (page_url r = page_url r' \<and> other_attributes r = other_attributes r')"

definition insert_clickable_node :: "clickable_node \<Rightarrow> database \<Rightarrow> database" where
  "insert_clickable_node r d =
     (if list_ex (same_key r) (clickable_nodes d) then d
      else d\<lparr>clickable_nodes := clickable_nodes d @ [r]\<rparr>)"

section \<open>Crawl state and effects\<close>

text \<open>
  The state threaded through the crawl: the browser, the \<open>visitedUrls\<close> set, the
  database, and the sequence of effects in program order (additions to the set, console
  output, WebDriver commands).
\<close>

datatype console_message =
    Crawling string nat
  | Found nat string
  | ErrorElement error
  | ErrorFinding string error
  | ErrorProcessing string error
  | ErrorCrawling string error

datatype 'e event =
    VisitedAdd string
  | Console console_message
  | Did "'e action"

record ('b, 'e) crawl_state =
  browser :: 'b
  visitedUrls :: "string set"
  db :: database
  events :: "'e event list"

type_synonym ('b, 'e, 'a) step = "('b, 'e) crawl_state \<Rightarrow> (error + 'a) \<times> ('b, 'e) crawl_state"

definition console :: "console_message \<Rightarrow> ('b, 'e) crawl_state \<Rightarrow> ('b, 'e) crawl_state" where
  "console m st = st\<lparr>events := events st @ [Console m]\<rparr>"

definition visited_add :: "string \<Rightarrow> ('b, 'e) crawl_state \<Rightarrow> ('b, 'e) crawl_state" where
  "visited_add url st =
     st\<lparr>visitedUrls := insert url (visitedUrls st), events := events st @ [VisitedAdd url]\<rparr>"

definition db_run :: "(database \<Rightarrow> database) \<Rightarrow> ('b, 'e) crawl_state \<Rightarrow> ('b, 'e) crawl_state" where
  "db_run f st = st\<lparr>db := f (db st)\<rparr>"

definition act :: "('b, 'e) env \<Rightarrow> 'e action \<Rightarrow> ('b, 'e, unit) step" where
  "act env a st =
     (case perform env a (browser st) of
        (r, b) \<Rightarrow> (r, st\<lparr>browser := b, events := events st @ [Did a]\<rparr>))"

definition query :: "('b \<Rightarrow> error + 'a) \<Rightarrow> ('b, 'e, 'a) step" where
  "query q st = (q (browser st), st)"

definition and_then :: "('b, 'e, 'a) step \<Rightarrow> ('a \<Rightarrow> ('b, 'e, 'c) step) \<Rightarrow> ('b, 'e, 'c) step" where
  "and_then m f st =
     (case m st of
        (Inl e, st') \<Rightarrow> (Inl e, st')
      | (Inr v, st') \<Rightarrow> f v st')"

definition succeed :: "'a \<Rightarrow> ('b, 'e, 'a) step" where
  "succeed v st = (Inr v, st)"

section \<open>Element discoverer\<close>

record elementInfo =
  selector :: "string option"
  tagName :: string
  textContent :: string
  href :: string

text \<open>The body of the \<open>try\<close> block of \<open>listClickableItems\<close> for one matched element.
  \<open>href\<close> starts as \<open>null\<close> and is read only for the tags \<open>a\<close> and \<open>link\<close>;
  \<open>href || ''\<close> turns \<open>null\<close> into the empty string.\<close>

definition describe_element :: "('b, 'e) env \<Rightarrow> 'b \<Rightarrow> 'e \<Rightarrow> error + elementInfo" where
  "describe_element env b element =
     (case getTagName env b element of
        Inl e \<Rightarrow> Inl e
      | Inr tag \<Rightarrow>
     (case getText env b element of
        Inl e \<Rightarrow> Inl e
      | Inr text \<Rightarrow>
     (case (if toLowerCase tag = ''a'' \<or> toLowerCase tag = ''link''
            then getAttribute_href env b element else Inr None) of
        Inl e \<Rightarrow> Inl e
      | Inr h \<Rightarrow>
     (case domNode env b element of
        Inl e \<Rightarrow> Inl e
      | Inr (root, p) \<Rightarrow>
     (case generateCssSelector root p of
        Inl e \<Rightarrow> Inl e
      | Inr sel \<Rightarrow>
          Inr \<lparr>selector = sel,
               tagName = tag,
               textContent = trim text,
               href = (case h of None \<Rightarrow> [] | Some l \<Rightarrow> l)\<rparr>)))))"

fun elementsInfo ::
  "('b, 'e) env \<Rightarrow> 'e list \<Rightarrow> elementInfo list \<Rightarrow> ('b, 'e) crawl_state \<Rightarrow>
   elementInfo list \<times> ('b, 'e) crawl_state" where
  "elementsInfo env [] acc st = (acc, st)"
| "elementsInfo env (element # rest) acc st =
     (case describe_element env (browser st) element of
        Inl e \<Rightarrow> elementsInfo env rest acc (console (ErrorElement e) st)
      | Inr info \<Rightarrow> elementsInfo env rest (acc @ [info]) st)"

definition listClickableItems :: "('b, 'e) env \<Rightarrow> ('b, 'e, elementInfo list) step" where
  "listClickableItems env st =
     (case findClickable env (browser st) of
        Inl e \<Rightarrow> (Inl e, st)
      | Inr clickableElements \<Rightarrow>
          (case elementsInfo env clickableElements [] st of
             (infos, st') \<Rightarrow> (Inr infos, st')))"

section \<open>Crawl traversal engine\<close>

definition MAX_DEPTH :: nat where
  "MAX_DEPTH = 2"

text \<open>\<open>`selector: ${selector}`\<close>, where a \<open>null\<close> selector prints as \<open>null\<close>.\<close>

definition selector_text :: "string option \<Rightarrow> string" where
  "selector_text s = ''selector: '' @ (case s of None \<Rightarrow> ''null'' | Some t \<Rightarrow> t)"

definition node_row :: "string \<Rightarrow> elementInfo \<Rightarrow> clickable_node" where
  "node_row url info =
     \<lparr>page_url = url, tag_name = tagName info, text_content = textContent info,
      href_column = href info, onclick = [], other_attributes = selector_text (selector info)\<rparr>"

text \<open>The first part of the outer \<open>try\<close> block of \<open>crawlPage\<close>: load the page, store
  its text and its URL, list the clickable elements.\<close>

definition load_page :: "('b, 'e) env \<Rightarrow> string \<Rightarrow> ('b, 'e, elementInfo list) step" where
  "load_page env url =
     and_then (act env (Get url)) (\<lambda>_.
     and_then (act env WaitBodyLocated) (\<lambda>_.
     and_then (query (bodyInnerText env)) (\<lambda>content.
     and_then (\<lambda>st. succeed () (db_run (insert_visited_url url)
                                  (db_run (insert_page_content url content) st))) (\<lambda>_.
     and_then (listClickableItems env) (\<lambda>clickableElements.
     and_then (\<lambda>st. succeed () (console (Found (length clickableElements) url) st)) (\<lambda>_.
     succeed clickableElements))))))"

text \<open>The inner \<open>try\<close> block up to the second reading of the URL.\<close>

definition click_element :: "('b, 'e) env \<Rightarrow> 'e \<Rightarrow> ('b, 'e, string \<times> string) step" where
  "click_element env element =
     and_then (act env (ScrollIntoView element)) (\<lambda>_.
     and_then (act env (WaitVisible element)) (\<lambda>_.
     and_then (act env (WaitEnabled element)) (\<lambda>_.
     and_then (query (getCurrentUrl env)) (\<lambda>currentUrl.
     and_then (act env (Click element)) (\<lambda>_.
     and_then (act env Sleep) (\<lambda>_.
     and_then (query (getCurrentUrl env)) (\<lambda>newUrl.
     succeed (currentUrl, newUrl))))))))"

definition back_and_wait :: "('b, 'e) env \<Rightarrow> string \<Rightarrow> ('b, 'e, unit) step" where
  "back_and_wait env currentUrl =
     and_then (act env NavigateBack) (\<lambda>_. act env (WaitUrlIs currentUrl))"

definition refresh_and_wait :: "('b, 'e) env \<Rightarrow> string \<Rightarrow> ('b, 'e, unit) step" where
  "refresh_and_wait env currentUrl =
     and_then (act env NavigateRefresh) (\<lambda>_. act env (WaitUrlIs currentUrl))"

text \<open>
  \<open>crawlPage\<close>, the \<open>for\<close> loop over the descriptors and the inner \<open>try\<close> block call
  each other. The loop and the inner \<open>try\<close> block return \<open>Inl\<close> for an exception
  that leaves them; \<open>crawlPage\<close> catches everything.
\<close>

function crawlPage ::
    "('b, 'e) env \<Rightarrow> string \<Rightarrow> nat \<Rightarrow> ('b, 'e) crawl_state \<Rightarrow> ('b, 'e) crawl_state"
  and crawlPage_for ::
    "('b, 'e) env \<Rightarrow> string \<Rightarrow> nat \<Rightarrow> elementInfo list \<Rightarrow> ('b, 'e, unit) step"
  and crawlPage_try ::
    "('b, 'e) env \<Rightarrow> string \<Rightarrow> nat \<Rightarrow> 'e \<Rightarrow> ('b, 'e, unit) step"
where
  "crawlPage env url depth st =
     (if url \<in> visitedUrls st \<or> depth > MAX_DEPTH then st
      else
        (case load_page env url (console (Crawling url depth) (visited_add url st)) of
           (Inl e, st1) \<Rightarrow> console (ErrorCrawling url e) st1
         | (Inr clickableElements, st1) \<Rightarrow>
             (case crawlPage_for env url depth clickableElements st1 of
                (Inl e, st2) \<Rightarrow> console (ErrorCrawling url e) st2
              | (Inr u, st2) \<Rightarrow> st2)))"
| "crawlPage_for env url depth [] st = (Inr (), st)"
| "crawlPage_for env url depth (info # rest) st =
     (let st1 = db_run (insert_clickable_node (node_row url info)) st
      in if href info \<noteq> [] \<and> \<not> isSameDomain (new_URL env) url (href info)
         then crawlPage_for env url depth rest st1
         else
           (case findElement env (browser st1) (selector info) of
              Inl e \<Rightarrow> crawlPage_for env url depth rest (console (ErrorFinding url e) st1)
            | Inr element \<Rightarrow>
                (case crawlPage_try env url depth element st1 of
                   (Inr u, st2) \<Rightarrow> crawlPage_for env url depth rest st2
                 | (Inl e, st2) \<Rightarrow>
                     (case refresh_and_wait env url (console (ErrorProcessing url e) st2) of
                        (Inl e', st3) \<Rightarrow> (Inl e', st3)
                      | (Inr u, st3) \<Rightarrow> crawlPage_for env url depth rest st3))))"
| "crawlPage_try env url depth element st =
     (case click_element env element st of
        (Inl e, st1) \<Rightarrow> (Inl e, st1)
      | (Inr (currentUrl, newUrl), st1) \<Rightarrow>
          if newUrl \<noteq> currentUrl \<and> isSameDomain (new_URL env) url newUrl
          then back_and_wait env currentUrl (crawlPage env newUrl (depth + 1) st1)
          else refresh_and_wait env currentUrl st1)"
  by pat_completeness auto
termination
  by (relation "inv_image (less_than <*lex*> less_than)
        (\<lambda>x. case x of
           Inl (env, url, depth, st) \<Rightarrow> (2 * (MAX_DEPTH + 1 - depth), 0)
         | Inr (Inl (env, url, depth, infos, st)) \<Rightarrow>
             (2 * (MAX_DEPTH - depth) + 1, length infos + 1)
         | Inr (Inr (env, url, depth, element, st)) \<Rightarrow> (2 * (MAX_DEPTH - depth) + 1, 0))")
     auto

declare crawlPage.simps [simp del]
declare crawlPage_try.simps [simp del]

text \<open>
  The rank of a call, which every recursive call lowers: the levels left below the call
  first, the length of the list of descriptors second.
\<close>

definition crawl_rank ::
  "('b, 'e) env \<times> string \<times> nat \<times> ('b, 'e) crawl_state +
   ('b, 'e) env \<times> string \<times> nat \<times> elementInfo list \<times> ('b, 'e) crawl_state +
   ('b, 'e) env \<times> string \<times> nat \<times> 'e \<times> ('b, 'e) crawl_state \<Rightarrow> nat \<times> nat" where
  "crawl_rank x =
     (case x of
        Inl (env, url, depth, st) \<Rightarrow> (2 * (MAX_DEPTH + 1 - depth), 0)
      | Inr (Inl (env, url, depth, infos, st)) \<Rightarrow>
          (2 * (MAX_DEPTH - depth) + 1, length infos + 1)
      | Inr (Inr (env, url, depth, element, st)) \<Rightarrow> (2 * (MAX_DEPTH - depth) + 1, 0))"

text \<open>The atomic effects through which the crawl changes its state.\<close>

inductive reach :: "('b, 'e) env \<Rightarrow> ('b, 'e) crawl_state \<Rightarrow> ('b, 'e) crawl_state \<Rightarrow> bool"
  for env :: "('b, 'e) env" and s :: "('b, 'e) crawl_state" where
  reach_refl: "reach env s s"
| reach_console: "reach env s t \<Longrightarrow> reach env s (console m t)"
| reach_visited: "reach env s t \<Longrightarrow> reach env s (visited_add u t)"
| reach_visited_url: "reach env s t \<Longrightarrow> reach env s (db_run (insert_visited_url u) t)"
| reach_page_content: "reach env s t \<Longrightarrow> reach env s (db_run (insert_page_content u c) t)"
| reach_clickable_node: "reach env s t \<Longrightarrow> reach env s (db_run (insert_clickable_node r) t)"
| reach_act: "reach env s t \<Longrightarrow> reach env s (snd (act env a t))"

text \<open>The \<open>UNIQUE\<close> constraints of the three tables.\<close>

definition db_unique :: "database \<Rightarrow> bool" where
  "db_unique d =
     (distinct (visited_urls d) \<and> distinct (map fst (page_contents d)) \<and>
      distinct (map (\<lambda>r. (page_url r, other_attributes r)) (clickable_nodes d)))"

text \<open>
  A run of events in which every addition to the visited set comes directly after a
  click and the pause that follows it. The first argument tells how much of the click
  and the pause has just been seen.
\<close>

datatype progress = Idle | Clicked | Paused

fun step_progress :: "progress \<Rightarrow> 'e event \<Rightarrow> progress" where
  "step_progress p (Did (Click e)) = Clicked"
| "step_progress p (Did Sleep) = (if p = Clicked then Paused else Idle)"
| "step_progress p ev = Idle"

fun after_click :: "progress \<Rightarrow> 'e event list \<Rightarrow> bool" where
  "after_click p [] = True"
| "after_click p (VisitedAdd u # es) = (p = Paused \<and> after_click Idle es)"
| "after_click p (ev # es) = after_click (step_progress p ev) es"

fun progress_after :: "progress \<Rightarrow> 'e event list \<Rightarrow> progress" where
  "progress_after p [] = p"
| "progress_after p (VisitedAdd u # es) = progress_after Idle es"
| "progress_after p (ev # es) = progress_after (step_progress p ev) es"

text \<open>
  Three relations between the state before and the state after a part of the crawl,
  on the events added in between: every addition to the visited set follows a click and
  its pause, whatever came before (\<open>follows_clicks\<close>); the same, where the very first
  event may be an addition (\<open>enters_page\<close>); and the same with a click and its
  pause as the last two events (\<open>ends_with_click\<close>).
\<close>

definition follows_clicks :: "('b, 'e) crawl_state \<Rightarrow> ('b, 'e) crawl_state \<Rightarrow> bool" where
  "follows_clicks s t = (\<exists>seg. events t = events s @ seg \<and> (\<forall>p. after_click p seg))"

definition enters_page :: "('b, 'e) crawl_state \<Rightarrow> ('b, 'e) crawl_state \<Rightarrow> bool" where
  "enters_page s t = (\<exists>seg. events t = events s @ seg \<and> after_click Paused seg)"

definition ends_with_click :: "('b, 'e) crawl_state \<Rightarrow> ('b, 'e) crawl_state \<Rightarrow> bool" where
  "ends_with_click s t =
     (\<exists>seg. events t = events s @ seg \<and>
        (\<forall>p. after_click p seg \<and> progress_after p seg = Paused))"

text \<open>A step that adds nothing to the visited set.\<close>

definition quiet :: "('b, 'e, 'a) step \<Rightarrow> bool" where
  "quiet m = (\<forall>s. \<exists>seg. events (snd (m s)) = events s @ seg \<and> (\<forall>u. VisitedAdd u \<notin> set seg))"

section \<open>A small browser and URL parser for the examples\<close>

text \<open>
  A URL of the form \<open>scheme://host/path\<close> is absolute; anything else is a path relative
  to the base, and does not parse without one.
\<close>

fun after_scheme :: "string \<Rightarrow> string option" where
  "after_scheme [] = None"
| "after_scheme (c # cs) =
     (if take 3 (c # cs) = ''://'' then Some (drop 2 cs) else after_scheme cs)"

fun before_scheme :: "string \<Rightarrow> string" where
  "before_scheme [] = []"
| "before_scheme (c # cs) =
     (if take 3 (c # cs) = ''://'' then [] else c # before_scheme cs)"

definition not_slash :: "char \<Rightarrow> bool" where
  "not_slash c = (c \<noteq> CHR ''/'')"

definition simple_URL :: url_class where
  "simple_URL input base =
     (case after_scheme input of
        Some rest \<Rightarrow>
          Inr \<lparr>protocol = before_scheme input @ '':'',
               hostname = takeWhile not_slash rest,
               pathname = dropWhile not_slash rest\<rparr>
      | None \<Rightarrow>
          (case base of
             None \<Rightarrow> Inl ''Invalid URL''
           | Some b \<Rightarrow>
               (case after_scheme b of
                  None \<Rightarrow> Inl ''Invalid URL''
                | Some rest \<Rightarrow>
                    Inr \<lparr>protocol = before_scheme b @ '':'',
                         hostname = takeWhile not_slash rest,
                         pathname = input\<rparr>)))"

text \<open>
  A site is a table of pages. A page has a DOM, a rendered text and its clickable
  elements; a click on one of them stays on the page, loads another URL, or is
  intercepted. The browser keeps the current URL and the history.
\<close>

datatype click_effect = Stays | GoesTo string | Intercepted

record widget =
  w_path :: "nat list"
  w_tag :: string
  w_text :: string
  w_href :: "string option"
  w_visible :: bool
  w_click :: click_effect

record page =
  p_dom :: node
  p_text :: string
  p_widgets :: "widget list"

type_synonym site = "(string \<times> page) list"

record tab =
  location :: string
  history :: "string list"

type_synonym handle = "string \<times> nat list"

definition widget_of :: "site \<Rightarrow> tab \<Rightarrow> handle \<Rightarrow> error + page \<times> widget" where
  "widget_of site b h =
     (if fst h \<noteq> location b then Inl ''stale element reference''
      else case map_of site (location b) of
             None \<Rightarrow> Inl ''stale element reference''
           | Some pg \<Rightarrow>
               (case find (\<lambda>w. w_path w = snd h) (p_widgets pg) of
                  None \<Rightarrow> Inl ''stale element reference''
                | Some w \<Rightarrow> Inr (pg, w)))"

definition on_widget :: "site \<Rightarrow> tab \<Rightarrow> handle \<Rightarrow> (page \<Rightarrow> widget \<Rightarrow> error + 'a) \<Rightarrow> error + 'a" where
  "on_widget site b h f =
     (case widget_of site b h of Inl e \<Rightarrow> Inl e | Inr (pg, w) \<Rightarrow> f pg w)"

text \<open>Loading the URL the browser is already at replaces the current history entry.\<close>

definition visit :: "string \<Rightarrow> tab \<Rightarrow> tab" where
  "visit u b =
     (if u = location b then b else \<lparr>location = u, history = location b # history b\<rparr>)"

definition site_perform :: "site \<Rightarrow> handle action \<Rightarrow> tab \<Rightarrow> (error + unit) \<times> tab" where
  "site_perform site a b =
     (case a of
        Get u \<Rightarrow> (Inr (), visit u b)
      | WaitBodyLocated \<Rightarrow>
          (case map_of site (location b) of
             None \<Rightarrow> (Inl ''timeout: no body'', b)
           | Some pg \<Rightarrow> (Inr (), b))
      | ScrollIntoView h \<Rightarrow> (on_widget site b h (\<lambda>pg w. Inr ()), b)
      | WaitVisible h \<Rightarrow>
          (on_widget site b h
             (\<lambda>pg w. if w_visible w then Inr () else Inl ''timeout: element not visible''), b)
      | WaitEnabled h \<Rightarrow> (on_widget site b h (\<lambda>pg w. Inr ()), b)
      | Click h \<Rightarrow>
          (case widget_of site b h of
             Inl e \<Rightarrow> (Inl e, b)
           | Inr (pg, w) \<Rightarrow>
               (case w_click w of
                  Stays \<Rightarrow> (Inr (), b)
                | GoesTo u \<Rightarrow> (Inr (), visit u b)
                | Intercepted \<Rightarrow> (Inl ''element click intercepted'', b)))
      | Sleep \<Rightarrow> (Inr (), b)
      | NavigateBack \<Rightarrow>
          (case history b of
             [] \<Rightarrow> (Inr (), b)
           | u # us \<Rightarrow> (Inr (), \<lparr>location = u, history = us\<rparr>))
      | NavigateRefresh \<Rightarrow> (Inr (), b)
      | WaitUrlIs u \<Rightarrow>
          (if location b = u then (Inr (), b) else (Inl ''timeout: url'', b)))"

definition site_findElement :: "site \<Rightarrow> tab \<Rightarrow> string option \<Rightarrow> error + handle" where
  "site_findElement site b sel =
     (case map_of site (location b) of
        None \<Rightarrow> Inl ''no such element''
      | Some pg \<Rightarrow>
          (case sel of
             None \<Rightarrow> Inl ''invalid selector''
           | Some s \<Rightarrow>
               (case find (\<lambda>w. generateCssSelector (p_dom pg) (w_path w) = Inr (Some s))
                       (p_widgets pg) of
                  None \<Rightarrow> Inl ''no such element''
                | Some w \<Rightarrow> Inr (location b, w_path w))))"

definition site_env :: "site \<Rightarrow> (tab, handle) env" where
  "site_env site =
     \<lparr>perform = site_perform site,
      bodyInnerText = (\<lambda>b. case map_of site (location b) of
                             None \<Rightarrow> Inl ''no body''
                           | Some pg \<Rightarrow> Inr (p_text pg)),
      findClickable = (\<lambda>b. case map_of site (location b) of
                             None \<Rightarrow> Inr []
                           | Some pg \<Rightarrow> Inr (map (\<lambda>w. (location b, w_path w)) (p_widgets pg))),
      getTagName = (\<lambda>b h. on_widget site b h (\<lambda>pg w. Inr (w_tag w))),
      getText = (\<lambda>b h. on_widget site b h (\<lambda>pg w. Inr (w_text w))),
      getAttribute_href = (\<lambda>b h. on_widget site b h (\<lambda>pg w. Inr (w_href w))),
      domNode = (\<lambda>b h. on_widget site b h (\<lambda>pg w. Inr (p_dom pg, w_path w))),
      findElement = site_findElement site,
      getCurrentUrl = (\<lambda>b. Inr (location b)),
      new_URL = simple_URL\<rparr>"

definition fresh :: "(tab, handle) crawl_state" where
  "fresh =
     \<lparr>browser = \<lparr>location = ''about:blank'', history = []\<rparr>,
      visitedUrls = {},
      db = \<lparr>visited_urls = [], page_contents = [], clickable_nodes = []\<rparr>,
      events = []\<rparr>"

subsection \<open>Example pages\<close>

definition catalogue_dom :: node where
  "catalogue_dom =
     Document [Element ''HTML'' [] (ClassString []) [
       Element ''HEAD'' [] (ClassString []) [],
       Text '' '',
       Element ''BODY'' [] (ClassString '' main  page '') [
         Element ''DIV'' ''nav'' (ClassString []) [
           Element ''A'' [] (ClassString ''btn'') [Text ''Next''],
           Text '' '',
           Element ''A'' [] (ClassString []) [
             Element ''SPAN'' [] (ClassString []) [Text ''Help'']]],
         Element ''BUTTON'' ''go'' (ClassString []) [Text ''Go'']]]]"

definition next_dom :: node where
  "next_dom =
     Document [Element ''HTML'' [] (ClassString []) [
       Element ''BODY'' [] (ClassString []) [Element ''A'' ''home'' (ClassString []) [Text ''Home'']]]]"

text \<open>A page with a class attribute that holds two spaces in a row, a class attribute
  that begins with a space, and an inline SVG picture.\<close>

definition gallery_dom :: node where
  "gallery_dom =
     Document [Element ''HTML'' [] (ClassString []) [
       Element ''BODY'' [] (ClassString []) [
         Element ''DIV'' [] (ClassString ''card  wide'') [
           Element ''A'' [] (ClassString '' more'') [Text ''More'']],
         Element ''svg'' [] (SVGAnimatedString ''icon'') [
           Element ''a'' [] (SVGAnimatedString []) [Text ''Zoom'']]]]]"

text \<open>
  A site of two pages. The first page shows a link to the second page, a hidden link to
  a help page and a button that changes nothing; the second page links back.
\<close>

definition catalogue :: site where
  "catalogue =
     [(''https://a.example/'',
       \<lparr>p_dom = catalogue_dom, p_text = ''Next Help Go'',
        p_widgets =
          [\<lparr>w_path = [0, 2, 0, 0], w_tag = ''a'', w_text = ''Next '',
            w_href = Some ''https://a.example/next'', w_visible = True,
            w_click = GoesTo ''https://a.example/next''\<rparr>,
           \<lparr>w_path = [0, 2, 0, 2], w_tag = ''a'', w_text = ''Help'',
            w_href = Some ''https://a.example/help'', w_visible = False,
            w_click = GoesTo ''https://a.example/help''\<rparr>,
           \<lparr>w_path = [0, 2, 1], w_tag = ''button'', w_text = ''Go'',
            w_href = None, w_visible = True, w_click = Stays\<rparr>]\<rparr>),
      (''https://a.example/next'',
       \<lparr>p_dom = next_dom, p_text = ''Home'',
        p_widgets =
          [\<lparr>w_path = [0, 0, 0], w_tag = ''a'', w_text = ''Home'',
            w_href = Some ''https://a.example/'', w_visible = True,
            w_click = GoesTo ''https://a.example/''\<rparr>]\<rparr>)]"

text \<open>A page with a button that leaves the site and a second button.\<close>

definition shop_dom :: node where
  "shop_dom =
     Document [Element ''HTML'' [] (ClassString []) [
       Element ''HEAD'' [] (ClassString []) [],
       Element ''BODY'' [] (ClassString []) [
         Element ''BUTTON'' ''out'' (ClassString []) [Text ''Partner''],
         Element ''BUTTON'' ''more'' (ClassString []) [Text ''More'']]]]"

definition shop :: site where
  "shop =
     [(''https://a.example/'',
       \<lparr>p_dom = shop_dom, p_text = ''Partner More'',
        p_widgets =
          [\<lparr>w_path = [0, 1, 0], w_tag = ''button'', w_text = ''Partner'',
            w_href = None, w_visible = True, w_click = GoesTo ''https://b.example/''\<rparr>,
           \<lparr>w_path = [0, 1, 1], w_tag = ''button'', w_text = ''More'',
            w_href = None, w_visible = True, w_click = Stays\<rparr>]\<rparr>)]"

text \<open>The state of a crawl whose browser shows the given URL.\<close>

definition showing :: "string \<Rightarrow> (tab, handle) crawl_state" where
  "showing u = fresh\<lparr>browser := \<lparr>location = u, history = [''about:blank'']\<rparr>\<rparr>"

text \<open>Descriptors: the three of the first page of the site, the two of the page with
  the button that leaves the site, and one whose selector matches nothing.\<close>

abbreviation home_url :: string where
  "home_url \<equiv> ''https://a.example/''"

definition next_info :: elementInfo where
  "next_info =
     \<lparr>selector = Some ''#nav > a.btn:nth-child(1)'', tagName = ''a'', textContent = ''Next'',
      href = ''https://a.example/next''\<rparr>"

definition help_info :: elementInfo where
  "help_info =
     \<lparr>selector = Some ''#nav > a:nth-child(2)'', tagName = ''a'', textContent = ''Help'',
      href = ''https://a.example/help''\<rparr>"

definition go_info :: elementInfo where
  "go_info = \<lparr>selector = Some ''#go'', tagName = ''button'', textContent = ''Go'', href = []\<rparr>"

definition partner_info :: elementInfo where
  "partner_info =
     \<lparr>selector = Some ''#out'', tagName = ''button'', textContent = ''Partner'', href = []\<rparr>"

definition more_info :: elementInfo where
  "more_info =
     \<lparr>selector = Some ''#more'', tagName = ''button'', textContent = ''More'', href = []\<rparr>"

definition gone_info :: elementInfo where
  "gone_info =
     \<lparr>selector = Some ''#gone'', tagName = ''button'', textContent = ''Old'', href = []\<rparr>"

section \<open>Properties of the selector generator\<close>

lemma node_at_append:
  "node_at n (q @ r) = (case node_at n q of None \<Rightarrow> None | Some m \<Rightarrow> node_at m r)"
  by (induction q arbitrary: n) auto

lemma node_at_snoc:
  "node_at n (q @ [i]) = Some el \<longleftrightarrow>
     (\<exists>pe. node_at n q = Some pe \<and> i < length (childNodes pe) \<and> childNodes pe ! i = el)"
  by (auto simp: node_at_append split: option.splits if_splits)

lemma ancestors_snoc: "ancestors (q @ [i]) = q # ancestors q"
  by (simp add: ancestors_def)

lemma ancestors_Nil: "ancestors [] = []"
  by (simp add: ancestors_def)

text \<open>\<open>indexOf\<close> on the element children counts the element children in front.\<close>

lemma indexOf_from_filter_upt:
  "i < n \<Longrightarrow> P i \<Longrightarrow> m \<le> i \<Longrightarrow>
   indexOf_from k (filter P [m ..< n]) i = k + int (length (filter P [m ..< i]))"
proof (induction "n - m" arbitrary: m k)
  case 0
  then show ?case by simp
next
  case (Suc d)
  then have mn: "m < n" by simp
  show ?case
  proof (cases "m = i")
    case True
    with Suc.prems mn show ?thesis by (simp add: upt_conv_Cons)
  next
    case False
    with Suc.prems have lt: "m < i" by simp
    have d: "d = n - Suc m" using Suc.hyps(2) by simp
    have ih: "indexOf_from k' (filter P [Suc m ..< n]) i =
              k' + int (length (filter P [Suc m ..< i]))" for k'
      using Suc.hyps(1) [OF d Suc.prems(1) Suc.prems(2)] lt by simp
    show ?thesis using mn lt False by (simp add: upt_conv_Cons ih)
  qed
qed

lemma length_filter_nth_upt:
  "i \<le> length xs \<Longrightarrow>
   length (filter (\<lambda>j. Q (xs ! j)) [0 ..< i]) = length (filter Q (take i xs))"
proof (induction i)
  case 0
  then show ?case by simp
next
  case (Suc i)
  then show ?case by (simp add: take_Suc_conv_app_nth)
qed

lemma digits_number: "number_to_string (int n) = digits n"
  by (simp add: number_to_string_def)

lemma children_length: "length (children pe) = length (filter is_element (childNodes pe))"
  using length_filter_nth_upt [of "length (childNodes pe)" "childNodes pe" is_element]
  by (simp add: children_def is_element_def)

lemma indexOf_children:
  assumes "i < length (childNodes pe)" "is_element (childNodes pe ! i)"
  shows "indexOf (children pe) i + 1 = int (spec_position pe i)"
proof -
  have "indexOf (children pe) i =
        int (length (filter (\<lambda>j. is_element (childNodes pe ! j)) [0 ..< i]))"
    unfolding indexOf_def children_def is_element_def [symmetric]
    using indexOf_from_filter_upt
            [of i "length (childNodes pe)" "\<lambda>j. is_element (childNodes pe ! j)" 0 0] assms
    by simp
  also have "\<dots> = int (length (filter is_element (take i (childNodes pe))))"
    using length_filter_nth_upt [of i "childNodes pe" is_element] assms by simp
  finally show ?thesis by (simp add: spec_position_def)
qed

text \<open>Trimming and replacing the runs of white space by dots gives the class names
  joined by dots.\<close>

lemma strip_right_Cons:
  "rev (dropWhile is_space (rev cs @ [c])) =
     (if (\<forall>x \<in> set cs. is_space x) \<and> is_space c then []
      else c # rev (dropWhile is_space (rev cs)))"
  by (auto simp: dropWhile_append)

lemma dropWhile_strip_right:
  "dropWhile is_space (rev (dropWhile is_space (rev s))) =
   rev (dropWhile is_space (rev (dropWhile is_space s)))"
proof (induction s)
  case Nil
  show ?case by simp
next
  case (Cons c cs)
  show ?case
  proof (cases "is_space c")
    case True
    show ?thesis
    proof (cases "\<forall>x \<in> set cs. is_space x")
      case all: True
      then have none: "dropWhile is_space cs = []" by simp
      from True all show ?thesis by (simp add: strip_right_Cons none)
    next
      case False
      with True Cons.IH show ?thesis by (auto simp: strip_right_Cons)
    qed
  next
    case False
    then show ?thesis by (simp add: strip_right_Cons)
  qed
qed

lemma split_names_Nil:
  "split_names cur s = [] \<longleftrightarrow> cur = [] \<and> (\<forall>x \<in> set s. is_space x)"
  by (induction s arbitrary: cur) auto

lemma join_Cons: "join sep (x # xs) = (if xs = [] then x else x @ sep @ join sep xs)"
  by (cases xs) auto

lemma join_split_names:
  "join ''.'' (split_names cur s) =
     (if cur = [] then replace_spaces (trim s)
      else cur @ replace_spaces (rev (dropWhile is_space (rev s))))"
proof (induction s arbitrary: cur)
  case Nil
  show ?case by (simp add: trim_def)
next
  case (Cons c cs)
  show ?case
  proof (cases "is_space c")
    case space: True
    show ?thesis
    proof (cases "cur = []")
      case True
      with space Cons.IH [of "[]"] show ?thesis by (simp add: trim_def)
    next
      case False
      show ?thesis
      proof (cases "\<forall>x \<in> set cs. is_space x")
        case True
        with space False show ?thesis
          by (simp add: split_names_Nil [of "[]" cs, simplified] strip_right_Cons join_Cons)
      next
        case some: False
        then have "split_names [] cs \<noteq> []" by (simp add: split_names_Nil)
        with space False some Cons.IH [of "[]"] show ?thesis
          by (simp add: strip_right_Cons join_Cons dropWhile_strip_right trim_def)
      qed
    qed
  next
    case False
    with Cons.IH [of "cur @ [c]"] show ?thesis
      by (simp add: strip_right_Cons trim_def)
  qed
qed

lemma replace_spaces_trim: "replace_spaces (trim s) = join ''.'' (class_names s)"
  by (simp add: class_names_def join_split_names)

text \<open>On a class attribute whose names are separated by single spaces the class names
  joined by dots are the attribute with a dot for every space.\<close>

lemma not_space_dot [simp]: "\<not> is_space c \<Longrightarrow> c \<noteq> CHR '' ''"
  by (auto simp: is_space_def)

lemma replace_spaces_single_spaced:
  "single_spaced s \<Longrightarrow> replace_spaces s = dots_for_spaces s"
proof (induction s rule: single_spaced.induct)
  case 1
  show ?case by (simp add: dots_for_spaces_def)
next
  case (2 c)
  then show ?case by (simp add: dots_for_spaces_def)
next
  case (3 c d cs)
  then show ?case
    by (cases "is_space c") (auto simp: dots_for_spaces_def)
qed

lemma single_spaced_last: "single_spaced s \<Longrightarrow> s \<noteq> [] \<Longrightarrow> \<not> is_space (last s)"
  by (induction s rule: single_spaced.induct) auto

lemma trim_single_spaced:
  assumes "single_spaced s" "s \<noteq> []" "\<not> is_space (hd s)"
  shows "trim s = s"
proof -
  have "dropWhile is_space s = s"
    using assms by (cases s) auto
  moreover have "dropWhile is_space (rev s) = rev s"
    using single_spaced_last [OF assms(1,2)] assms(2)
    by (cases "rev s") (auto simp: last_rev [symmetric] simp del: last_rev)
  ultimately show ?thesis by (simp add: trim_def)
qed

lemma class_names_suffix_single_spaced:
  assumes "single_spaced cls" "cls \<noteq> []" "\<not> is_space (hd cls)"
  shows "class_names_suffix cls = spec_class_suffix cls"
  using assms trim_single_spaced [OF assms] replace_spaces_single_spaced [OF assms(1)]
    replace_spaces_trim [of cls]
  by (simp add: class_names_suffix_def spec_class_suffix_def)

text \<open>The loop builds the fragments of the description.\<close>

lemma fragment_spec:
  assumes "node_at root p = Some el" "is_element el" "string_class_at root p"
  shows "fragment root p el = Inr (spec_fragment class_names_suffix root p)"
proof -
  from assms(1,3) obtain c where c: "className el = ClassString c"
    by (auto simp: string_class_at_def split: class_name.splits)
  show ?thesis
  proof (cases p rule: rev_cases)
    case Nil
    then show ?thesis using assms(1) c
      by (simp add: fragment_def spec_fragment_def sibling_def parentNode_def
          spec_nth_child_def class_names_suffix_def class_attribute_def replace_spaces_trim
          Let_def)
  next
    case (snoc q i)
    with assms obtain pe where pe: "node_at root q = Some pe" "i < length (childNodes pe)"
      "childNodes pe ! i = el"
      by (auto simp: node_at_snoc)
    have sib: "sibling root p = children pe"
      using snoc pe by (simp add: sibling_def parentNode_def)
    have idx: "number_to_string (indexOf (children pe) i + 1) = digits (spec_position pe i)"
      using indexOf_children [of i pe] pe assms(2) by (simp add: digits_number)
    show ?thesis
      using snoc pe assms(1) sib idx c
      by (simp add: fragment_def spec_fragment_def spec_nth_child_def class_names_suffix_def
          class_attribute_def replace_spaces_trim spec_has_siblings_def children_length
          Let_def)
  qed
qed

lemma fragment_throws:
  assumes "node_at root p = Some el" "\<not> string_class_at root p"
  shows "fragment root p el = Inl className_error"
  using assms
  by (auto simp: fragment_def string_class_at_def split: class_name.splits)

lemma walked_snoc:
  "walked root (q @ [i]) =
     (q @ [i]) # (if plain_element_at root q then walked root q else [])"
  by (simp add: walked_def ancestors_snoc)

lemma selector_loop_spec:
  "node_at root p = Some el \<Longrightarrow> is_element el \<Longrightarrow>
   \<forall>q \<in> set (walked root p). string_class_at root q \<Longrightarrow>
   selector_loop root p path =
     Inr (spec_anchor root p @
          map (spec_fragment class_names_suffix root) (rev (walked root p)) @ path)"
proof (induction p arbitrary: el path rule: rev_induct)
  case Nil
  then have "string_class_at root []" by (simp add: walked_def ancestors_Nil)
  with Nil show ?case
    by (subst selector_loop.simps)
       (simp add: parentNode_def spec_anchor_def ancestors_Nil walked_def fragment_spec
          is_element_def)
next
  case (snoc i q)
  from snoc.prems obtain pe where pe: "node_at root q = Some pe" "i < length (childNodes pe)"
    "childNodes pe ! i = el"
    by (auto simp: node_at_snoc)
  have "string_class_at root (q @ [i])"
    using snoc.prems(3) by (simp add: walked_snoc)
  then have frag: "fragment root (q @ [i]) el =
      Inr (spec_fragment class_names_suffix root (q @ [i]))"
    using fragment_spec snoc.prems by simp
  show ?case
  proof (cases "id_attr pe \<noteq> []")
    case True
    then have np: "\<not> plain_element_at root q"
      using pe by (simp add: plain_element_at_def)
    show ?thesis
      using snoc.prems pe frag True np
      by (subst selector_loop.simps)
         (simp add: parentNode_def spec_anchor_def ancestors_snoc walked_snoc is_element_def)
  next
    case noid: False
    have step: "selector_loop root (q @ [i]) path =
          selector_loop root q (spec_fragment class_names_suffix root (q @ [i]) # path)"
      using snoc.prems pe frag noid
      by (subst selector_loop.simps) (simp add: parentNode_def is_element_def)
    show ?thesis
    proof (cases "is_element pe")
      case True
      then have pl: "plain_element_at root q"
        using pe noid by (simp add: plain_element_at_def)
      then have "\<forall>r \<in> set (walked root q). string_class_at root r"
        using snoc.prems(3) by (simp add: walked_snoc)
      then have "selector_loop root q (spec_fragment class_names_suffix root (q @ [i]) # path) =
          Inr (spec_anchor root q @
               map (spec_fragment class_names_suffix root) (rev (walked root q)) @
               spec_fragment class_names_suffix root (q @ [i]) # path)"
        using snoc.IH [OF pe(1) True] by simp
      with step pl show ?thesis
        by (simp add: spec_anchor_def ancestors_snoc walked_snoc)
    next
      case False
      then have np: "\<not> plain_element_at root q"
        using pe by (simp add: plain_element_at_def)
      have "selector_loop root q (spec_fragment class_names_suffix root (q @ [i]) # path) =
            Inr (spec_fragment class_names_suffix root (q @ [i]) # path)"
        using pe False by (subst selector_loop.simps) (simp add: is_element_def)
      with step np pe noid show ?thesis
        by (simp add: spec_anchor_def ancestors_snoc walked_snoc)
    qed
  qed
qed

text \<open>An element on the walk whose \<open>className\<close> is no string makes the loop throw.\<close>

lemma selector_loop_throws:
  "node_at root p = Some el \<Longrightarrow> is_element el \<Longrightarrow>
   \<exists>q \<in> set (walked root p). \<not> string_class_at root q \<Longrightarrow>
   selector_loop root p path = Inl className_error"
proof (induction p arbitrary: el path rule: rev_induct)
  case Nil
  then have "\<not> string_class_at root []" by (simp add: walked_def ancestors_Nil)
  with Nil show ?case
    by (subst selector_loop.simps) (simp add: fragment_throws is_element_def)
next
  case (snoc i q)
  from snoc.prems obtain pe where pe: "node_at root q = Some pe" "i < length (childNodes pe)"
    "childNodes pe ! i = el"
    by (auto simp: node_at_snoc)
  show ?case
  proof (cases "string_class_at root (q @ [i])")
    case False
    with snoc.prems show ?thesis
      by (subst selector_loop.simps) (simp add: fragment_throws is_element_def)
  next
    case True
    then have frag: "fragment root (q @ [i]) el =
        Inr (spec_fragment class_names_suffix root (q @ [i]))"
      using fragment_spec snoc.prems by simp
    from True snoc.prems(3) have pl: "plain_element_at root q"
      and ex: "\<exists>r \<in> set (walked root q). \<not> string_class_at root r"
      by (auto simp: walked_snoc split: if_splits)
    from pl pe have el: "is_element pe" and noid: "id_attr pe = []"
      by (simp_all add: plain_element_at_def)
    have "selector_loop root (q @ [i]) path =
          selector_loop root q (spec_fragment class_names_suffix root (q @ [i]) # path)"
      using snoc.prems pe frag noid
      by (subst selector_loop.simps) (simp add: parentNode_def is_element_def)
    with snoc.IH [OF pe(1) el ex] show ?thesis by simp
  qed
qed

text \<open>
  C5. For an element with a non-empty id the selector generator returns exactly \<open>#\<close>
  followed by the id, whatever the ancestors are. For an element without id, when the
  \<open>className\<close> of the element and of every ancestor on the walk is a string (as it is on
  HTML elements), it returns the selector of the description with the class names joined
  by dots as class suffix: the fragments of the element and of its ancestors below the
  nearest ancestor with an id (or below the document, or the top of a detached tree),
  outermost first, behind \<open>#\<close> and the id of that ancestor when there is one, joined
  with \<open>" > "\<close>. For a class attribute of names separated by single spaces this class
  suffix is the one of the specification, a dot and the attribute with a dot for every
  space.
\<close>

theorem generateCssSelector_spec:
  assumes "node_at root p = Some (Element nm i cls cs)"
  shows "(i \<noteq> [] \<longrightarrow> generateCssSelector root p = Inr (Some (''#'' @ i))) \<and>
         (i = [] \<and> (\<forall>q \<in> set (walked root p). string_class_at root q) \<longrightarrow>
            generateCssSelector root p =
              Inr (Some (spec_selector class_names_suffix root p))) \<and>
         (\<forall>c. single_spaced c \<and> c \<noteq> [] \<and> \<not> is_space (hd c) \<longrightarrow>
              class_names_suffix c = spec_class_suffix c)"
proof (intro conjI impI allI)
  assume "i \<noteq> []"
  with assms show "generateCssSelector root p = Inr (Some (''#'' @ i))"
    by (simp add: generateCssSelector_def ELEMENT_NODE_def)
next
  assume a: "i = [] \<and> (\<forall>q \<in> set (walked root p). string_class_at root q)"
  have "is_element (Element nm i cls cs)"
    by (simp add: is_element_def ELEMENT_NODE_def)
  from selector_loop_spec [OF assms this, of "[]"] a assms
  show "generateCssSelector root p = Inr (Some (spec_selector class_names_suffix root p))"
    by (simp add: generateCssSelector_def spec_selector_def ELEMENT_NODE_def)
next
  fix c
  assume "single_spaced c \<and> c \<noteq> [] \<and> \<not> is_space (hd c)"
  then show "class_names_suffix c = spec_class_suffix c"
    by (simp add: class_names_suffix_single_spaced)
qed

theorem generateCssSelector_spec_witness:
  "node_at gallery_dom [0, 0, 0, 0] =
     Some (Element ''A'' [] (ClassString '' more'') [Text ''More'']) \<and>
   list_all (string_class_at gallery_dom) (walked gallery_dom [0, 0, 0, 0]) \<and>
   generateCssSelector gallery_dom [0, 0, 0, 0] =
     Inr (Some ''html > body > div.card.wide:nth-child(1) > a.more'') \<and>
   node_at catalogue_dom [0, 2, 1] =
     Some (Element ''BUTTON'' ''go'' (ClassString []) [Text ''Go'']) \<and>
   generateCssSelector catalogue_dom [0, 2, 1] = Inr (Some ''#go'') \<and>
   single_spaced ''btn primary'' \<and>
   class_names_suffix ''btn primary'' = ''.btn.primary''"
proof -
  have n1: "node_at gallery_dom [0, 0, 0, 0] =
      Some (Element ''A'' [] (ClassString '' more'') [Text ''More''])"
    by (simp add: gallery_dom_def)
  have n2: "node_at catalogue_dom [0, 2, 1] =
      Some (Element ''BUTTON'' ''go'' (ClassString []) [Text ''Go''])"
    by (simp add: catalogue_dom_def)
  have w1: "list_all (string_class_at gallery_dom) (walked gallery_dom [0, 0, 0, 0])"
    by code_simp
  have s1: "spec_selector class_names_suffix gallery_dom [0, 0, 0, 0] =
      ''html > body > div.card.wide:nth-child(1) > a.more''"
    by code_simp
  have c: "single_spaced ''btn primary'' \<and> ''btn primary'' \<noteq> [] \<and>
      \<not> is_space (hd ''btn primary'')"
    by (simp add: is_space_def)
  have d: "spec_class_suffix ''btn primary'' = ''.btn.primary''"
    by (simp add: spec_class_suffix_def dots_for_spaces_def)
  note t1 = generateCssSelector_spec [OF n1]
  note t2 = generateCssSelector_spec [OF n2]
  from t1 [THEN conjunct2, THEN conjunct1] w1 s1
  have g1: "generateCssSelector gallery_dom [0, 0, 0, 0] =
      Inr (Some ''html > body > div.card.wide:nth-child(1) > a.more'')"
    by (simp add: list_all_iff)
  from t2 [THEN conjunct1]
  have g2: "generateCssSelector catalogue_dom [0, 2, 1] = Inr (Some ''#go'')"
    by simp
  from t1 [THEN conjunct2, THEN conjunct2, THEN spec, THEN mp, OF c] d
  have g3: "class_names_suffix ''btn primary'' = ''.btn.primary''"
    by simp
  from n1 w1 g1 n2 g2 c [THEN conjunct1] g3 show ?thesis by (intro conjI)
qed

text \<open>
  C5 as stated fails on a page with a class attribute that holds two spaces in a row
  and one that begins with a space: the selector of the specification, with a dot for
  every space, is not the one returned. It fails on an element inside an SVG picture
  too: the generator throws, and no selector is returned.
\<close>

theorem generateCssSelector_spec_counterexample:
  "node_at gallery_dom [0, 0, 0, 0] =
     Some (Element ''A'' [] (ClassString '' more'') [Text ''More'']) \<and>
   generateCssSelector gallery_dom [0, 0, 0, 0] =
     Inr (Some ''html > body > div.card.wide:nth-child(1) > a.more'') \<and>
   spec_selector spec_class_suffix gallery_dom [0, 0, 0, 0] =
     ''html > body > div.card..wide:nth-child(1) > a..more'' \<and>
   node_at gallery_dom [0, 0, 1, 0] =
     Some (Element ''a'' [] (SVGAnimatedString []) [Text ''Zoom'']) \<and>
   generateCssSelector gallery_dom [0, 0, 1, 0] = Inl className_error"
  by code_simp

section \<open>The effects of the crawl\<close>

text \<open>Every part of the crawl changes the state through the atomic effects only.\<close>

lemma reach_trans:
  assumes "reach env t u" and "reach env s t"
  shows "reach env s u"
  using assms
  by (induction rule: reach.induct) (auto intro: reach.intros)

lemma reach_step_console: "reach env s (console m s)"
  by (intro reach.intros)

lemma reach_step_act: "reach env s (snd (act env a s))"
  by (intro reach.intros)

lemma reach_query: "reach env s (snd (query q s))"
  by (simp add: query_def reach_refl)

lemma reach_succeed: "reach env s (snd (succeed v s))"
  by (simp add: succeed_def reach_refl)

lemma reach_and_then:
  assumes "reach env s (snd (m s))" and "\<And>v t. reach env t (snd (f v t))"
  shows "reach env s (snd (and_then m f s))"
proof (cases "m s")
  case (Pair r t)
  show ?thesis
  proof (cases r)
    case (Inl e)
    with Pair assms(1) show ?thesis by (simp add: and_then_def)
  next
    case (Inr v)
    with Pair assms(1) assms(2) [of t v] show ?thesis
      by (auto simp: and_then_def intro: reach_trans)
  qed
qed

lemma reach_refresh_and_wait: "reach env s (snd (refresh_and_wait env u s))"
  unfolding refresh_and_wait_def by (intro reach_and_then reach_step_act)

lemma reach_back_and_wait: "reach env s (snd (back_and_wait env u s))"
  unfolding back_and_wait_def by (intro reach_and_then reach_step_act)

lemma reach_click_element: "reach env s (snd (click_element env element s))"
  unfolding click_element_def
  by (intro reach_and_then reach_step_act reach_query reach_succeed)

lemma reach_elementsInfo: "reach env s (snd (elementsInfo env es acc s))"
proof (induction es arbitrary: acc s)
  case Nil
  show ?case by (simp add: reach_refl)
next
  case (Cons e es)
  show ?case
  proof (cases "describe_element env (browser s) e")
    case (Inl err)
    have "reach env (console (ErrorElement err) s)
            (snd (elementsInfo env es acc (console (ErrorElement err) s)))"
      by (rule Cons.IH)
    with Inl show ?thesis
      by (auto intro: reach_trans reach_step_console)
  next
    case (Inr info)
    then show ?thesis by (simp add: Cons.IH)
  qed
qed

lemma reach_listClickableItems: "reach env s (snd (listClickableItems env s))"
proof (cases "findClickable env (browser s)")
  case (Inl e)
  then show ?thesis by (simp add: listClickableItems_def reach_refl)
next
  case (Inr es)
  obtain infos t where ei: "elementsInfo env es [] s = (infos, t)"
    by (cases "elementsInfo env es [] s")
  with reach_elementsInfo [of env s es "[]"] Inr show ?thesis
    by (simp add: listClickableItems_def)
qed

lemma reach_load_page: "reach env s (snd (load_page env url s))"
  unfolding load_page_def
  by (intro reach_and_then reach_step_act reach_query reach_listClickableItems)
     (auto simp: succeed_def intro: reach.intros)

lemma crawlPage_for_external:
  assumes "href info \<noteq> []" "\<not> isSameDomain (new_URL env) url (href info)"
  shows "crawlPage_for env url depth (info # rest) st =
         crawlPage_for env url depth rest (db_run (insert_clickable_node (node_row url info)) st)"
  using assms by (simp add: Let_def)

lemma crawlPage_for_stale:
  assumes "href info = [] \<or> isSameDomain (new_URL env) url (href info)"
    and "st1 = db_run (insert_clickable_node (node_row url info)) st"
    and "findElement env (browser st1) (selector info) = Inl e"
  shows "crawlPage_for env url depth (info # rest) st =
         crawlPage_for env url depth rest (console (ErrorFinding url e) st1)"
  using assms by (auto simp: Let_def)

lemma crawlPage_for_clicked:
  assumes "href info = [] \<or> isSameDomain (new_URL env) url (href info)"
    and "st1 = db_run (insert_clickable_node (node_row url info)) st"
    and "findElement env (browser st1) (selector info) = Inr element"
    and "crawlPage_try env url depth element st1 = (Inr u, st2)"
  shows "crawlPage_for env url depth (info # rest) st = crawlPage_for env url depth rest st2"
  using assms by (auto simp: Let_def)

lemma crawlPage_for_caught:
  assumes "href info = [] \<or> isSameDomain (new_URL env) url (href info)"
    and "st1 = db_run (insert_clickable_node (node_row url info)) st"
    and "findElement env (browser st1) (selector info) = Inr element"
    and "crawlPage_try env url depth element st1 = (Inl e, st2)"
  shows "crawlPage_for env url depth (info # rest) st =
         (case refresh_and_wait env url (console (ErrorProcessing url e) st2) of
            (Inl e', st3) \<Rightarrow> (Inl e', st3)
          | (Inr u, st3) \<Rightarrow> crawlPage_for env url depth rest st3)"
  using assms by (auto simp: Let_def)

lemma reach_crawl:
  "reach env st (crawlPage env url depth st)"
  "reach env st (snd (crawlPage_for env url depth infos st))"
  "reach env st (snd (crawlPage_try env url depth element st))"
proof (induction env url depth st and env url depth infos st and env url depth element st
       rule: crawlPage_crawlPage_for_crawlPage_try.induct)
  case (1 env url depth st)
  show ?case
  proof (cases "url \<in> visitedUrls st \<or> depth > MAX_DEPTH")
    case True
    then show ?thesis by (simp add: crawlPage.simps reach_refl)
  next
    case False
    define st0 where "st0 = console (Crawling url depth) (visited_add url st)"
    have r0: "reach env st st0"
      unfolding st0_def by (intro reach.intros)
    obtain r st1 where lp: "load_page env url st0 = (r, st1)"
      by (cases "load_page env url st0")
    have r1: "reach env st st1"
      using reach_load_page [of env st0 url] lp r0 by (auto intro: reach_trans)
    show ?thesis
    proof (cases r)
      case (Inl e)
      with False lp r1 show ?thesis
        by (simp add: crawlPage.simps st0_def [symmetric] reach_console)
    next
      case (Inr els)
      have "reach env st1 (snd (crawlPage_for env url depth els st1))"
        using "1.IH" [OF False _ Inr, of st1] lp by (simp add: st0_def)
      with r1 have r2: "reach env st (snd (crawlPage_for env url depth els st1))"
        by (auto intro: reach_trans)
      with False lp Inr show ?thesis
        by (auto simp: crawlPage.simps st0_def [symmetric] reach_console
            split: prod.splits sum.splits)
    qed
  qed
next
  case (2 env url depth st)
  show ?case by (simp add: reach_refl)
next
  case (3 env url depth info rest st)
  define st1 where "st1 = db_run (insert_clickable_node (node_row url info)) st"
  have r1: "reach env st st1"
    unfolding st1_def by (intro reach.intros)
  show ?case
  proof (cases "href info \<noteq> [] \<and> \<not> isSameDomain (new_URL env) url (href info)")
    case True
    then have "crawlPage_for env url depth (info # rest) st = crawlPage_for env url depth rest st1"
      unfolding st1_def by (intro crawlPage_for_external) simp_all
    with "3.IH"(1) [OF st1_def True] r1 show ?thesis
      by (auto intro: reach_trans)
  next
    case False
    then have int: "href info = [] \<or> isSameDomain (new_URL env) url (href info)"
      by blast
    show ?thesis
    proof (cases "findElement env (browser st1) (selector info)")
      case (Inl e)
      have "reach env st1 (console (ErrorFinding url e) st1)"
        by (rule reach_step_console)
      with "3.IH"(2) [OF st1_def False Inl] r1 show ?thesis
        unfolding crawlPage_for_stale [OF int st1_def Inl]
        by (auto intro: reach_trans)
    next
      case (Inr element)
      obtain r st2 where tr: "crawlPage_try env url depth element st1 = (r, st2)"
        by (cases "crawlPage_try env url depth element st1")
      have r2: "reach env st st2"
        using "3.IH"(3) [OF st1_def False Inr] tr r1 by (auto intro: reach_trans)
      show ?thesis
      proof (cases r)
        case ok: (Inr u)
        with tr have tr': "crawlPage_try env url depth element st1 = (Inr u, st2)"
          by simp
        from "3.IH"(5) [OF st1_def False Inr tr [symmetric] ok] r2 show ?thesis
          unfolding crawlPage_for_clicked [OF int st1_def Inr tr']
          by (auto intro: reach_trans)
      next
        case err: (Inl e)
        with tr have tr': "crawlPage_try env url depth element st1 = (Inl e, st2)"
          by simp
        define st2' where "st2' = console (ErrorProcessing url e) st2"
        obtain r' st3 where rw: "refresh_and_wait env url st2' = (r', st3)"
          by (cases "refresh_and_wait env url st2'")
        have r3: "reach env st st3"
          using reach_refresh_and_wait [of env st2' url] rw r2
          by (auto simp: st2'_def intro: reach_trans reach.intros)
        show ?thesis
        proof (cases r')
          case (Inl e')
          with r3 rw show ?thesis
            unfolding crawlPage_for_caught [OF int st1_def Inr tr']
            by (simp add: st2'_def [symmetric])
        next
          case ok': (Inr u)
          have "reach env st3 (snd (crawlPage_for env url depth rest st3))"
            using "3.IH"(4) [OF st1_def False Inr tr [symmetric] err _ ok', of st3] rw
            by (simp add: st2'_def)
          with r3 rw ok' show ?thesis
            unfolding crawlPage_for_caught [OF int st1_def Inr tr']
            by (auto simp: st2'_def [symmetric] intro: reach_trans)
        qed
      qed
    qed
  qed
next
  case (4 env url depth element st)
  obtain r st1 where ce: "click_element env element st = (r, st1)"
    by (cases "click_element env element st")
  have r1: "reach env st st1"
    using reach_click_element [of env st element] ce by simp
  show ?case
  proof (cases r)
    case (Inl e)
    with ce r1 show ?thesis by (simp add: crawlPage_try.simps)
  next
    case (Inr urls)
    obtain currentUrl newUrl where urls: "urls = (currentUrl, newUrl)"
      by (cases urls)
    show ?thesis
    proof (cases "newUrl \<noteq> currentUrl \<and> isSameDomain (new_URL env) url newUrl")
      case True
      have "reach env st1 (crawlPage env newUrl (depth + 1) st1)"
        using "4.IH" [OF ce [symmetric] Inr urls [symmetric] True] .
      with r1 have "reach env st (crawlPage env newUrl (depth + 1) st1)"
        by (auto intro: reach_trans)
      with reach_back_and_wait [of env "crawlPage env newUrl (depth + 1) st1" currentUrl]
      show ?thesis
        using ce Inr urls True
        by (auto simp: crawlPage_try.simps intro: reach_trans)
    next
      case False
      with reach_refresh_and_wait [of env st1 currentUrl] r1 ce Inr urls show ?thesis
        by (auto simp: crawlPage_try.simps intro: reach_trans)
    qed
  qed
qed

lemma reach_visitedUrls: "reach env s t \<Longrightarrow> visitedUrls s \<subseteq> visitedUrls t"
  by (induction rule: reach.induct)
     (auto simp: console_def visited_add_def db_run_def act_def split: prod.splits)

lemma reach_events: "reach env s t \<Longrightarrow> \<exists>es. events t = events s @ es"
  by (induction rule: reach.induct)
     (auto simp: console_def visited_add_def db_run_def act_def split: prod.splits)

lemma insert_visited_url_unique: "db_unique d \<Longrightarrow> db_unique (insert_visited_url u d)"
  by (simp add: db_unique_def insert_visited_url_def)

lemma insert_page_content_unique: "db_unique d \<Longrightarrow> db_unique (insert_page_content u c d)"
  by (simp add: db_unique_def insert_page_content_def)

lemma insert_clickable_node_unique: "db_unique d \<Longrightarrow> db_unique (insert_clickable_node r d)"
  by (auto simp: db_unique_def insert_clickable_node_def list_ex_iff same_key_def)

lemma reach_db_unique: "reach env s t \<Longrightarrow> db_unique (db s) \<Longrightarrow> db_unique (db t)"
  by (induction rule: reach.induct)
     (auto simp: console_def visited_add_def db_run_def act_def insert_visited_url_unique
        insert_page_content_unique insert_clickable_node_unique split: prod.splits)

lemma act_events: "events (snd (act env a s)) = events s @ [Did a]"
  by (simp add: act_def split: prod.splits)

lemma and_then_act_events:
  assumes "\<And>t. reach env t (snd (f t))"
  shows "\<exists>rest. events (snd (and_then (act env a) (\<lambda>_. f) s)) = events s @ Did a # rest"
proof (cases "act env a s")
  case (Pair r t)
  then have ev: "events t = events s @ [Did a]"
    using act_events [of env a s] by simp
  show ?thesis
  proof (cases r)
    case (Inl e)
    with Pair ev show ?thesis by (simp add: and_then_def)
  next
    case (Inr u)
    from reach_events [OF assms [of t]] obtain es where "events (snd (f t)) = events t @ es"
      by blast
    with Pair Inr ev show ?thesis by (simp add: and_then_def)
  qed
qed

lemma load_page_events:
  "\<exists>rest. events (snd (load_page env url s)) = events s @ Did (Get url) # rest"
  unfolding load_page_def
  by (rule and_then_act_events)
     (intro reach_and_then reach_step_act reach_query reach_listClickableItems,
      auto simp: succeed_def intro: reach.intros)

lemma crawlPage_skip:
  "url \<in> visitedUrls st \<or> depth > MAX_DEPTH \<Longrightarrow> crawlPage env url depth st = st"
  by (simp add: crawlPage.simps)

lemma crawlPage_enter:
  assumes "url \<notin> visitedUrls st" "depth \<le> MAX_DEPTH"
  shows "url \<in> visitedUrls (crawlPage env url depth st)"
    and "\<exists>rest. events (crawlPage env url depth st) =
           events st @ VisitedAdd url # Console (Crawling url depth) # Did (Get url) # rest"
proof -
  define st0 where "st0 = console (Crawling url depth) (visited_add url st)"
  have ev0: "events st0 = events st @ [VisitedAdd url, Console (Crawling url depth)]"
    and v0: "url \<in> visitedUrls st0"
    by (simp_all add: st0_def console_def visited_add_def)
  obtain r st1 where lp: "load_page env url st0 = (r, st1)"
    by (cases "load_page env url st0")
  obtain rest1 where ev1: "events st1 = events st0 @ Did (Get url) # rest1"
    using load_page_events [of env url st0] lp by auto
  have v1: "url \<in> visitedUrls st1"
    using reach_visitedUrls [OF reach_load_page [of env st0 url]] lp v0 by auto
  define final where "final = crawlPage env url depth st"
  have "reach env st1 final"
  proof (cases r)
    case (Inl e)
    with assms lp show ?thesis
      by (simp add: final_def crawlPage.simps st0_def [symmetric] reach_step_console)
  next
    case (Inr els)
    obtain r2 st2 where cf: "crawlPage_for env url depth els st1 = (r2, st2)"
      by (cases "crawlPage_for env url depth els st1")
    have "reach env st1 st2"
      using reach_crawl(2) [of env st1 url depth els] cf by simp
    with assms lp Inr cf show ?thesis
      by (cases r2)
         (auto simp: final_def crawlPage.simps st0_def [symmetric] intro: reach.intros)
  qed
  from reach_visitedUrls [OF this] reach_events [OF this] v1 ev1 ev0
  show "url \<in> visitedUrls (crawlPage env url depth st)"
    and "\<exists>rest. events (crawlPage env url depth st) =
           events st @ VisitedAdd url # Console (Crawling url depth) # Did (Get url) # rest"
    by (auto simp: final_def)
qed

section \<open>Admission\<close>

text \<open>
  C1. A call of \<open>crawlPage\<close> for a URL that is in the visited set, or with a depth
  above \<open>MAX_DEPTH\<close>, returns the state as it received it: no navigation, no database
  record, no addition to the visited set. Every other call adds the URL to the visited
  set before it navigates: the first effects of the call are the addition of the URL,
  the console line and the \<open>get\<close> command, in this order, and the URL is in the
  visited set at the end.
\<close>

theorem crawlPage_admission:
  "(url \<in> visitedUrls st \<or> depth > MAX_DEPTH \<longrightarrow> crawlPage env url depth st = st) \<and>
   (url \<notin> visitedUrls st \<and> depth \<le> MAX_DEPTH \<longrightarrow>
      url \<in> visitedUrls (crawlPage env url depth st) \<and>
      (\<exists>rest. events (crawlPage env url depth st) =
         events st @ VisitedAdd url # Console (Crawling url depth) # Did (Get url) # rest))"
  using crawlPage_skip [of url st depth env] crawlPage_enter [of url st depth env]
  by blast

theorem crawlPage_admission_witness:
  "MAX_DEPTH < 3 \<and>
   crawlPage (site_env catalogue) ''https://a.example/'' 3 fresh = fresh \<and>
   ''https://a.example/'' \<notin> visitedUrls fresh \<and> 0 \<le> MAX_DEPTH \<and>
   ''https://a.example/'' \<in> visitedUrls (crawlPage (site_env catalogue) ''https://a.example/'' 0 fresh) \<and>
   take 3 (events (crawlPage (site_env catalogue) ''https://a.example/'' 0 fresh)) =
     [VisitedAdd ''https://a.example/'', Console (Crawling ''https://a.example/'' 0),
      Did (Get ''https://a.example/'')]"
proof -
  have a: "MAX_DEPTH < 3" by (simp add: MAX_DEPTH_def)
  have b: "''https://a.example/'' \<notin> visitedUrls fresh \<and> 0 \<le> MAX_DEPTH"
    by (simp add: fresh_def)
  have e: "events fresh = []" by (simp add: fresh_def)
  from crawlPage_admission [of "''https://a.example/''" fresh 3 "site_env catalogue"] a
  have c: "crawlPage (site_env catalogue) ''https://a.example/'' 3 fresh = fresh"
    by blast
  from crawlPage_admission [of "''https://a.example/''" fresh 0 "site_env catalogue"] b
  have d: "''https://a.example/'' \<in> visitedUrls (crawlPage (site_env catalogue) ''https://a.example/'' 0 fresh) \<and>
      (\<exists>rest. events (crawlPage (site_env catalogue) ''https://a.example/'' 0 fresh) =
         events fresh @ VisitedAdd ''https://a.example/'' # Console (Crawling ''https://a.example/'' 0) # Did (Get ''https://a.example/'') # rest)"
    by blast
  then obtain rest where "events (crawlPage (site_env catalogue) ''https://a.example/'' 0 fresh) =
         VisitedAdd ''https://a.example/'' # Console (Crawling ''https://a.example/'' 0) # Did (Get ''https://a.example/'') # rest"
    using e by auto
  then have "take 3 (events (crawlPage (site_env catalogue) ''https://a.example/'' 0 fresh)) =
     [VisitedAdd ''https://a.example/'', Console (Crawling ''https://a.example/'' 0),
      Did (Get ''https://a.example/'')]" by simp
  with a b c d show ?thesis by blast
qed

section \<open>Termination\<close>

lemma crawl_rank_decreases:
  assumes "crawlPage_crawlPage_for_crawlPage_try_rel x y"
  shows "(x, y) \<in> inv_image (less_than <*lex*> less_than) crawl_rank"
  using assms
  by (cases rule: crawlPage_crawlPage_for_crawlPage_try_rel.cases)
     (auto simp: crawl_rank_def)

lemma crawl_total: "crawlPage_crawlPage_for_crawlPage_try_dom x"
proof -
  have "wf (inv_image (less_than <*lex*> less_than) crawl_rank)"
    by (intro wf_inv_image wf_lex_prod wf_less_than)
  moreover have "{(x, y). crawlPage_crawlPage_for_crawlPage_try_rel x y} \<subseteq>
      inv_image (less_than <*lex*> less_than) crawl_rank"
    using crawl_rank_decreases by blast
  ultimately have "wf {(x, y). crawlPage_crawlPage_for_crawlPage_try_rel x y}"
    by (rule wf_subset)
  then have "wfp crawlPage_crawlPage_for_crawlPage_try_rel"
    by (simp add: wfp_def)
  then show ?thesis
    by (rule accp_wfpD)
qed

lemma call_of_crawlPage:
  assumes "crawlPage_crawlPage_for_crawlPage_try_rel (Inl (env', url', depth', st')) caller"
  shows "\<exists>url depth element st. caller = Inr (Inr (env', url, depth, element, st)) \<and> depth' = depth + 1"
  using assms by (cases rule: crawlPage_crawlPage_for_crawlPage_try_rel.cases) auto

lemma no_call_when_skipped:
  assumes "url \<in> visitedUrls st \<or> depth > MAX_DEPTH"
  shows "\<not> crawlPage_crawlPage_for_crawlPage_try_rel x (Inl (env, url, depth, st))"
proof
  assume "crawlPage_crawlPage_for_crawlPage_try_rel x (Inl (env, url, depth, st))"
  then show False
    using assms by (cases rule: crawlPage_crawlPage_for_crawlPage_try_rel.cases) auto
qed


text \<open>
  C8. The traversal terminates on every input (every command and query of the browser
  being a function that returns or throws): every call of \<open>crawlPage\<close> lies in the
  domain on which the recursion is well-founded. The visited set only grows. Every
  recursive call of \<open>crawlPage\<close> is made by the inner \<open>try\<close> block with the depth of
  the caller plus one, and a call with a visited URL or with a depth above \<open>MAX_DEPTH\<close>
  returns its state at once and makes no call at all.
\<close>

theorem crawlPage_terminates:
  fixes env :: "('b, 'e) env"
  shows
  "crawlPage_crawlPage_for_crawlPage_try_dom (Inl (env, url, depth, st)) \<and>
   visitedUrls st \<subseteq> visitedUrls (crawlPage env url depth st) \<and>
   (\<forall>(env' :: ('b, 'e) env) url' depth' st' caller.
      crawlPage_crawlPage_for_crawlPage_try_rel (Inl (env', url', depth', st')) caller \<longrightarrow>
      (\<exists>url depth element st.
         caller = Inr (Inr (env', url, depth, element, st)) \<and> depth' = depth + 1)) \<and>
   (url \<in> visitedUrls st \<or> depth > MAX_DEPTH \<longrightarrow>
      crawlPage env url depth st = st \<and>
      (\<forall>x. \<not> crawlPage_crawlPage_for_crawlPage_try_rel x (Inl (env, url, depth, st))))"
proof (intro conjI allI impI)
  show "crawlPage_crawlPage_for_crawlPage_try_dom (Inl (env, url, depth, st))"
    by (rule crawl_total)
  show "visitedUrls st \<subseteq> visitedUrls (crawlPage env url depth st)"
    by (rule reach_visitedUrls [OF reach_crawl(1)])
next
  fix env' :: "('b, 'e) env" and url' depth' st' caller
  assume "crawlPage_crawlPage_for_crawlPage_try_rel (Inl (env', url', depth', st')) caller"
  then show "\<exists>url depth element st.
      caller = Inr (Inr (env', url, depth, element, st)) \<and> depth' = depth + 1"
    by (rule call_of_crawlPage)
next
  assume skip: "url \<in> visitedUrls st \<or> MAX_DEPTH < depth"
  then show "crawlPage env url depth st = st"
    by (rule crawlPage_skip)
  fix x
  from skip show "\<not> crawlPage_crawlPage_for_crawlPage_try_rel x (Inl (env, url, depth, st))"
    by (rule no_call_when_skipped)
qed

theorem crawlPage_terminates_witness:
  "crawlPage_crawlPage_for_crawlPage_try_dom
     (Inl (site_env catalogue, ''https://a.example/'', 0, fresh)) \<and>
   visitedUrls fresh \<subseteq> visitedUrls (crawlPage (site_env catalogue) ''https://a.example/'' 0 fresh) \<and>
   MAX_DEPTH < 3 \<and>
   crawlPage (site_env catalogue) ''https://a.example/next'' 3 fresh = fresh"
proof -
  have a: "MAX_DEPTH < 3" by (simp add: MAX_DEPTH_def)
  note t0 = crawlPage_terminates [of "site_env catalogue" "''https://a.example/''" 0 fresh]
  note t3 = crawlPage_terminates [of "site_env catalogue" "''https://a.example/next''" 3 fresh]
  from t3 a have b: "crawlPage (site_env catalogue) ''https://a.example/next'' 3 fresh = fresh"
    by (elim conjE) simp
  from t0 a b show ?thesis by (elim conjE) simp
qed

section \<open>Revisits\<close>

lemma filter_key_absent: "u \<notin> fst ` set xs \<Longrightarrow> filter (\<lambda>r. fst r = u) xs = []"
  by (induction xs) auto

lemma filter_key_le_one:
  "distinct (map fst xs) \<Longrightarrow> length (filter (\<lambda>r. fst r = u) xs) \<le> 1"
  by (induction xs) (auto simp: filter_key_absent)

lemma count_list_le_one: "distinct xs \<Longrightarrow> count_list xs u \<le> 1"
  by (induction xs) (auto simp: count_list_0_iff)

lemma insert_page_content_twice:
  "insert_page_content u c' (insert_page_content u c d) = insert_page_content u c d"
  by (simp add: insert_page_content_def)

lemma insert_visited_url_twice:
  "insert_visited_url u (insert_visited_url u d) = insert_visited_url u d"
  by (simp add: insert_visited_url_def)

lemma crawlPage_visited:
  "depth \<le> MAX_DEPTH \<Longrightarrow> url \<in> visitedUrls (crawlPage env url depth st)"
  using crawlPage_enter(1) [of url st depth env] crawlPage_skip [of url st depth env]
  by (cases "url \<in> visitedUrls st") auto

text \<open>
  C9. Crawling a URL twice in one run leaves at most one page-content record and at most
  one visited-URL record for it in a database that satisfied the \<open>UNIQUE\<close> constraints
  at the start. After a first attempt at a depth within \<open>MAX_DEPTH\<close> the second attempt
  changes nothing, as the URL is in the visited set. Both inserts are idempotent: the
  second insert of a URL leaves the table as the first one left it.
\<close>

theorem crawlPage_revisit:
  "(db_unique (db st) \<longrightarrow>
      length (filter (\<lambda>r. fst r = url)
        (page_contents (db (crawlPage env url depth' (crawlPage env url depth st))))) \<le> 1 \<and>
      count_list (visited_urls (db (crawlPage env url depth' (crawlPage env url depth st)))) url \<le> 1) \<and>
   (depth \<le> MAX_DEPTH \<longrightarrow>
      crawlPage env url depth' (crawlPage env url depth st) = crawlPage env url depth st) \<and>
   insert_page_content url content' (insert_page_content url content d) =
     insert_page_content url content d \<and>
   insert_visited_url url (insert_visited_url url d) = insert_visited_url url d"
proof (intro conjI impI)
  assume u: "db_unique (db st)"
  have "reach env st (crawlPage env url depth' (crawlPage env url depth st))"
    using reach_crawl(1) [of env st url depth]
      reach_crawl(1) [of env "crawlPage env url depth st" url depth']
    by (rule reach_trans [rotated])
  from reach_db_unique [OF this u]
  have d: "db_unique (db (crawlPage env url depth' (crawlPage env url depth st)))" .
  then show "length (filter (\<lambda>r. fst r = url)
        (page_contents (db (crawlPage env url depth' (crawlPage env url depth st))))) \<le> 1"
    by (intro filter_key_le_one) (simp add: db_unique_def)
  from d show "count_list (visited_urls (db (crawlPage env url depth' (crawlPage env url depth st)))) url \<le> 1"
    by (intro count_list_le_one) (simp add: db_unique_def)
next
  assume "depth \<le> MAX_DEPTH"
  then have "url \<in> visitedUrls (crawlPage env url depth st)"
    by (rule crawlPage_visited)
  then show "crawlPage env url depth' (crawlPage env url depth st) = crawlPage env url depth st"
    by (intro crawlPage_skip) simp
next
  show "insert_page_content url content' (insert_page_content url content d) =
     insert_page_content url content d"
    by (rule insert_page_content_twice)
  show "insert_visited_url url (insert_visited_url url d) = insert_visited_url url d"
    by (rule insert_visited_url_twice)
qed

text \<open>The database after the crawl of the example site.\<close>

lemma crawl_catalogue_db:
  "db (crawlPage (site_env catalogue) ''https://a.example/'' 0 fresh) =
     \<lparr>visited_urls = [''https://a.example/'', ''https://a.example/next''],
      page_contents = [(''https://a.example/'', ''Next Help Go''), (''https://a.example/next'', ''Home'')],
      clickable_nodes =
              [\<lparr>page_url = ''https://a.example/'', tag_name = ''a'',
                  text_content = ''Next'',
                  href_column = ''https://a.example/next'', onclick = [],
                  other_attributes =
                    ''selector: #nav > a.btn:nth-child(1)''\<rparr>,
               \<lparr>page_url = ''https://a.example/next'', tag_name = ''a'',
                  text_content = ''Home'',
                  href_column = ''https://a.example/'', onclick = [],
                  other_attributes = ''selector: #home''\<rparr>,
               \<lparr>page_url = ''https://a.example/'', tag_name = ''a'',
                  text_content = ''Help'',
                  href_column = ''https://a.example/help'', onclick = [],
                  other_attributes = ''selector: #nav > a:nth-child(2)''\<rparr>,
               \<lparr>page_url = ''https://a.example/'', tag_name = ''button'',
                  text_content = ''Go'', href_column = [], onclick = [],
                  other_attributes = ''selector: #go''\<rparr>]\<rparr>"
  by code_simp

theorem crawlPage_revisit_witness:
  "db_unique (db fresh) \<and> 0 \<le> MAX_DEPTH \<and>
   crawlPage (site_env catalogue) ''https://a.example/'' 1
     (crawlPage (site_env catalogue) ''https://a.example/'' 0 fresh) =
   crawlPage (site_env catalogue) ''https://a.example/'' 0 fresh \<and>
   filter (\<lambda>r. fst r = ''https://a.example/'')
     (page_contents (db (crawlPage (site_env catalogue) ''https://a.example/'' 1
        (crawlPage (site_env catalogue) ''https://a.example/'' 0 fresh)))) =
   [(''https://a.example/'', ''Next Help Go'')]"
proof -
  have u: "db_unique (db fresh)" by (simp add: fresh_def db_unique_def)
  note r = crawlPage_revisit [of fresh "''https://a.example/''" "site_env catalogue" 1 0]
  from r have e: "crawlPage (site_env catalogue) ''https://a.example/'' 1
     (crawlPage (site_env catalogue) ''https://a.example/'' 0 fresh) =
   crawlPage (site_env catalogue) ''https://a.example/'' 0 fresh" by simp
  show ?thesis using u e by (simp add: crawl_catalogue_db)
qed

section \<open>Clicks without navigation\<close>

text \<open>Steps that leave the database and the visited set alone.\<close>

lemma act_store:
  "db (snd (act env a s)) = db s \<and> visitedUrls (snd (act env a s)) = visitedUrls s"
  by (simp add: act_def split: prod.splits)

lemma and_then_store:
  assumes "db (snd (m s)) = db s \<and> visitedUrls (snd (m s)) = visitedUrls s"
    and "\<And>v t. db (snd (f v t)) = db t \<and> visitedUrls (snd (f v t)) = visitedUrls t"
  shows "db (snd (and_then m f s)) = db s \<and>
         visitedUrls (snd (and_then m f s)) = visitedUrls s"
proof (cases "m s")
  case (Pair r t)
  with assms(1) assms(2) [of _ t] show ?thesis
    by (cases r) (auto simp: and_then_def)
qed

lemma query_store:
  "db (snd (query q s)) = db s \<and> visitedUrls (snd (query q s)) = visitedUrls s"
  by (simp add: query_def)

lemma succeed_store:
  "db (snd (succeed v s)) = db s \<and> visitedUrls (snd (succeed v s)) = visitedUrls s"
  by (simp add: succeed_def)

lemma click_element_store:
  "db (snd (click_element env element s)) = db s \<and>
   visitedUrls (snd (click_element env element s)) = visitedUrls s"
  unfolding click_element_def
  by (intro and_then_store act_store query_store succeed_store)

lemma refresh_and_wait_store:
  "db (snd (refresh_and_wait env u s)) = db s \<and>
   visitedUrls (snd (refresh_and_wait env u s)) = visitedUrls s"
  unfolding refresh_and_wait_def
  by (intro and_then_store act_store)

lemma refresh_and_wait_events:
  "events (snd (refresh_and_wait env u s)) = events s @ [Did NavigateRefresh, Did (WaitUrlIs u)] \<or>
   (\<exists>e. fst (refresh_and_wait env u s) = Inl e \<and>
        events (snd (refresh_and_wait env u s)) = events s @ [Did NavigateRefresh])"
proof (cases "act env NavigateRefresh s")
  case (Pair r t)
  then have ev: "events t = events s @ [Did NavigateRefresh]"
    using act_events [of env NavigateRefresh s] by simp
  show ?thesis
  proof (cases r)
    case (Inl e)
    with Pair ev show ?thesis by (simp add: refresh_and_wait_def and_then_def)
  next
    case (Inr u')
    with Pair ev act_events [of env "WaitUrlIs u" t] show ?thesis
      by (simp add: refresh_and_wait_def and_then_def)
  qed
qed

lemma crawlPage_try_stay:
  assumes "click_element env element st = (Inr (currentUrl, newUrl), st1)"
    and "newUrl = currentUrl \<or> \<not> isSameDomain (new_URL env) url newUrl"
  shows "crawlPage_try env url depth element st = refresh_and_wait env currentUrl st1"
  using assms by (auto simp: crawlPage_try.simps)

lemma console_store:
  "db (console m s) = db s \<and> visitedUrls (console m s) = visitedUrls s"
  by (simp add: console_def)

text \<open>The state from which the loop goes on, or in which it is left, after a descriptor
  whose inner \<open>try\<close> block ended in the state \<open>st2\<close>.\<close>

lemma crawlPage_for_after_try:
  assumes internal: "href info = [] \<or> isSameDomain (new_URL env) url (href info)"
    and st1: "st1 = db_run (insert_clickable_node (node_row url info)) st"
    and found: "findElement env (browser st1) (selector info) = Inr element"
    and tried: "crawlPage_try env url depth element st1 = (r, st2)"
  shows "\<exists>st'. db st' = db st2 \<and>
           (crawlPage_for env url depth (info # rest) st = crawlPage_for env url depth rest st' \<or>
            (\<exists>e. crawlPage_for env url depth (info # rest) st = (Inl e, st')))"
proof (cases r)
  case (Inr u)
  with tried have "crawlPage_try env url depth element st1 = (Inr u, st2)" by simp
  from crawlPage_for_clicked [OF internal st1 found this] show ?thesis by blast
next
  case (Inl e)
  with tried have t: "crawlPage_try env url depth element st1 = (Inl e, st2)" by simp
  obtain r' st3 where rw: "refresh_and_wait env url (console (ErrorProcessing url e) st2) = (r', st3)"
    by (cases "refresh_and_wait env url (console (ErrorProcessing url e) st2)")
  have d: "db st3 = db st2"
    using refresh_and_wait_store [of env url "console (ErrorProcessing url e) st2"] rw
    by (simp add: console_store)
  show ?thesis
  proof (cases r')
    case (Inl e')
    with crawlPage_for_caught [OF internal st1 found t, of rest] rw d show ?thesis by auto
  next
    case (Inr u)
    with crawlPage_for_caught [OF internal st1 found t, of rest] rw d show ?thesis by auto
  qed
qed

text \<open>
  C10. For a descriptor that is re-located and clicked, when the click leaves the URL of
  the browser as it was or leads to another domain, the inner \<open>try\<close> block is the
  refresh of the page followed by the wait for the URL from before the click: these two
  commands are all it adds after the click (the wait is not issued when the refresh
  throws). It writes nothing to the database and adds nothing to the visited set: the
  row of the descriptor itself, stored before the click, is the only change to the
  database, in the \<open>clickable_nodes\<close> table, and the loop goes on (or is left) with
  exactly that database.
\<close>

theorem crawlPage_try_without_navigation:
  assumes internal: "href info = [] \<or> isSameDomain (new_URL env) url (href info)"
    and st1: "st1 = db_run (insert_clickable_node (node_row url info)) st"
    and found: "findElement env (browser st1) (selector info) = Inr element"
    and click: "click_element env element st1 = (Inr (currentUrl, newUrl), st2)"
    and stay: "newUrl = currentUrl \<or> \<not> isSameDomain (new_URL env) url newUrl"
  shows "crawlPage_try env url depth element st1 = refresh_and_wait env currentUrl st2 \<and>
         (events (snd (crawlPage_try env url depth element st1)) =
            events st2 @ [Did NavigateRefresh, Did (WaitUrlIs currentUrl)] \<or>
          (\<exists>e. fst (crawlPage_try env url depth element st1) = Inl e \<and>
             events (snd (crawlPage_try env url depth element st1)) =
               events st2 @ [Did NavigateRefresh])) \<and>
         visitedUrls (snd (crawlPage_try env url depth element st1)) = visitedUrls st \<and>
         db (snd (crawlPage_try env url depth element st1)) =
           insert_clickable_node (node_row url info) (db st) \<and>
         page_contents (db (snd (crawlPage_try env url depth element st1))) =
           page_contents (db st) \<and>
         visited_urls (db (snd (crawlPage_try env url depth element st1))) =
           visited_urls (db st) \<and>
         (\<exists>st'. db st' = insert_clickable_node (node_row url info) (db st) \<and>
            (crawlPage_for env url depth (info # rest) st = crawlPage_for env url depth rest st' \<or>
             (\<exists>e. crawlPage_for env url depth (info # rest) st = (Inl e, st'))))"
proof -
  have eq: "crawlPage_try env url depth element st1 = refresh_and_wait env currentUrl st2"
    using click stay by (rule crawlPage_try_stay)
  have s1: "db st1 = insert_clickable_node (node_row url info) (db st)"
    "visitedUrls st1 = visitedUrls st"
    by (simp_all add: st1 db_run_def)
  have s2: "db st2 = db st1 \<and> visitedUrls st2 = visitedUrls st1"
    using click_element_store [of env element st1] click by simp
  have s3: "db (snd (refresh_and_wait env currentUrl st2)) = db st2 \<and>
            visitedUrls (snd (refresh_and_wait env currentUrl st2)) = visitedUrls st2"
    by (rule refresh_and_wait_store)
  have d: "db (snd (crawlPage_try env url depth element st1)) =
           insert_clickable_node (node_row url info) (db st)"
    using eq s1 s2 s3 by simp
  have rows: "page_contents (insert_clickable_node (node_row url info) (db st)) =
                page_contents (db st)"
    "visited_urls (insert_clickable_node (node_row url info) (db st)) = visited_urls (db st)"
    by (simp_all add: insert_clickable_node_def)
  obtain r st3 where t: "crawlPage_try env url depth element st1 = (r, st3)"
    by (cases "crawlPage_try env url depth element st1")
  from crawlPage_for_after_try [OF internal st1 found t, of rest] d t
  have loop: "\<exists>st'. db st' = insert_clickable_node (node_row url info) (db st) \<and>
            (crawlPage_for env url depth (info # rest) st = crawlPage_for env url depth rest st' \<or>
             (\<exists>e. crawlPage_for env url depth (info # rest) st = (Inl e, st')))"
    by simp
  have ev: "events (snd (crawlPage_try env url depth element st1)) =
            events st2 @ [Did NavigateRefresh, Did (WaitUrlIs currentUrl)] \<or>
          (\<exists>e. fst (crawlPage_try env url depth element st1) = Inl e \<and>
             events (snd (crawlPage_try env url depth element st1)) =
               events st2 @ [Did NavigateRefresh])"
    unfolding eq by (rule refresh_and_wait_events)
  have v: "visitedUrls (snd (crawlPage_try env url depth element st1)) = visitedUrls st"
    using eq s1 s2 s3 by simp
  show ?thesis
    using eq ev v d rows loop by simp
qed


lemma site_env_URL: "new_URL (site_env site) = simple_URL"
  by (simp add: site_env_def)

theorem crawlPage_try_without_navigation_witness:
  "findElement (site_env catalogue)
     (browser (db_run (insert_clickable_node (node_row home_url go_info)) (showing home_url)))
     (selector go_info) = Inr (home_url, [0, 2, 1]) \<and>
   fst (click_element (site_env catalogue) (home_url, [0, 2, 1])
     (db_run (insert_clickable_node (node_row home_url go_info)) (showing home_url))) =
     Inr (home_url, home_url) \<and>
   events (snd (crawlPage_try (site_env catalogue) home_url 0 (home_url, [0, 2, 1])
     (db_run (insert_clickable_node (node_row home_url go_info)) (showing home_url)))) =
     [Did (ScrollIntoView (home_url, [0, 2, 1])), Did (WaitVisible (home_url, [0, 2, 1])),
      Did (WaitEnabled (home_url, [0, 2, 1])), Did (Click (home_url, [0, 2, 1])), Did Sleep,
      Did NavigateRefresh, Did (WaitUrlIs home_url)] \<and>
   db (snd (crawlPage_try (site_env catalogue) home_url 0 (home_url, [0, 2, 1])
     (db_run (insert_clickable_node (node_row home_url go_info)) (showing home_url)))) =
     \<lparr>visited_urls = [], page_contents = [],
      clickable_nodes =
        [\<lparr>page_url = home_url, tag_name = ''button'', text_content = ''Go'',
          href_column = [], onclick = [], other_attributes = ''selector: #go''\<rparr>]\<rparr> \<and>
   fst (click_element (site_env shop) (home_url, [0, 1, 0])
     (db_run (insert_clickable_node (node_row home_url partner_info)) (showing home_url))) =
     Inr (home_url, ''https://b.example/'') \<and>
   \<not> isSameDomain simple_URL home_url ''https://b.example/'' \<and>
   events (snd (crawlPage_try (site_env shop) home_url 0 (home_url, [0, 1, 0])
     (db_run (insert_clickable_node (node_row home_url partner_info)) (showing home_url)))) =
     [Did (ScrollIntoView (home_url, [0, 1, 0])), Did (WaitVisible (home_url, [0, 1, 0])),
      Did (WaitEnabled (home_url, [0, 1, 0])), Did (Click (home_url, [0, 1, 0])), Did Sleep,
      Did NavigateRefresh, Did (WaitUrlIs home_url)] \<and>
   db (snd (crawlPage_try (site_env shop) home_url 0 (home_url, [0, 1, 0])
     (db_run (insert_clickable_node (node_row home_url partner_info)) (showing home_url)))) =
     \<lparr>visited_urls = [], page_contents = [],
      clickable_nodes =
        [\<lparr>page_url = home_url, tag_name = ''button'', text_content = ''Partner'',
          href_column = [], onclick = [], other_attributes = ''selector: #out''\<rparr>]\<rparr>"
proof -
  let ?env = "site_env catalogue"
  let ?h = "(home_url, [0, 2, 1])"
  let ?st1 = "db_run (insert_clickable_node (node_row home_url go_info)) (showing home_url)"
  let ?st2 = "snd (click_element ?env ?h ?st1)"
  have internal: "href go_info = [] \<or> isSameDomain (new_URL ?env) home_url (href go_info)"
    by (simp add: go_info_def)
  have found: "findElement ?env (browser ?st1) (selector go_info) = Inr ?h"
    by code_simp
  have urls: "fst (click_element ?env ?h ?st1) = Inr (home_url, home_url)"
    by code_simp
  then have click: "click_element ?env ?h ?st1 = (Inr (home_url, home_url), ?st2)"
    by (simp add: prod_eq_iff)
  have stay: "home_url = home_url \<or> \<not> isSameDomain (new_URL ?env) home_url home_url"
    by simp
  note t = crawlPage_try_without_navigation [OF internal refl found click stay, of 0 "[]"]
  have ev: "events (snd (refresh_and_wait ?env home_url ?st2)) =
     [Did (ScrollIntoView ?h), Did (WaitVisible ?h), Did (WaitEnabled ?h), Did (Click ?h),
      Did Sleep, Did NavigateRefresh, Did (WaitUrlIs home_url)]"
    by code_simp
  have d: "insert_clickable_node (node_row home_url go_info) (db (showing home_url)) =
     \<lparr>visited_urls = [], page_contents = [],
      clickable_nodes =
        [\<lparr>page_url = home_url, tag_name = ''button'', text_content = ''Go'',
          href_column = [], onclick = [], other_attributes = ''selector: #go''\<rparr>]\<rparr>"
    by code_simp
  have e1: "events (snd (crawlPage_try ?env home_url 0 ?h ?st1)) =
     [Did (ScrollIntoView ?h), Did (WaitVisible ?h), Did (WaitEnabled ?h), Did (Click ?h),
      Did Sleep, Did NavigateRefresh, Did (WaitUrlIs home_url)]"
    by (simp only: t [THEN conjunct1] ev)
  have d1: "db (snd (crawlPage_try ?env home_url 0 ?h ?st1)) =
     \<lparr>visited_urls = [], page_contents = [],
      clickable_nodes =
        [\<lparr>page_url = home_url, tag_name = ''button'', text_content = ''Go'',
          href_column = [], onclick = [], other_attributes = ''selector: #go''\<rparr>]\<rparr>"
    using t [THEN conjunct2, THEN conjunct2, THEN conjunct2, THEN conjunct1]
    by (simp only: d)
  let ?shop = "site_env shop"
  let ?k = "(home_url, [0, 1, 0])"
  let ?sp1 = "db_run (insert_clickable_node (node_row home_url partner_info)) (showing home_url)"
  let ?sp2 = "snd (click_element ?shop ?k ?sp1)"
  have internal': "href partner_info = [] \<or>
      isSameDomain (new_URL ?shop) home_url (href partner_info)"
    by (simp add: partner_info_def)
  have found': "findElement ?shop (browser ?sp1) (selector partner_info) = Inr ?k"
    by code_simp
  have urls': "fst (click_element ?shop ?k ?sp1) = Inr (home_url, ''https://b.example/'')"
    by code_simp
  then have click': "click_element ?shop ?k ?sp1 = (Inr (home_url, ''https://b.example/''), ?sp2)"
    by (simp add: prod_eq_iff)
  have foreign: "\<not> isSameDomain simple_URL home_url ''https://b.example/''"
    by code_simp
  then have stay': "''https://b.example/'' = home_url \<or>
      \<not> isSameDomain (new_URL ?shop) home_url ''https://b.example/''"
    by (simp only: site_env_URL simp_thms)
  note t' = crawlPage_try_without_navigation [OF internal' refl found' click' stay', of 0 "[]"]
  have ev': "events (snd (refresh_and_wait ?shop home_url ?sp2)) =
     [Did (ScrollIntoView ?k), Did (WaitVisible ?k), Did (WaitEnabled ?k), Did (Click ?k),
      Did Sleep, Did NavigateRefresh, Did (WaitUrlIs home_url)]"
    by code_simp
  have d': "insert_clickable_node (node_row home_url partner_info) (db (showing home_url)) =
     \<lparr>visited_urls = [], page_contents = [],
      clickable_nodes =
        [\<lparr>page_url = home_url, tag_name = ''button'', text_content = ''Partner'',
          href_column = [], onclick = [], other_attributes = ''selector: #out''\<rparr>]\<rparr>"
    by code_simp
  have e2: "events (snd (crawlPage_try ?shop home_url 0 ?k ?sp1)) =
     [Did (ScrollIntoView ?k), Did (WaitVisible ?k), Did (WaitEnabled ?k), Did (Click ?k),
      Did Sleep, Did NavigateRefresh, Did (WaitUrlIs home_url)]"
    by (simp only: t' [THEN conjunct1] ev')
  have d2: "db (snd (crawlPage_try ?shop home_url 0 ?k ?sp1)) =
     \<lparr>visited_urls = [], page_contents = [],
      clickable_nodes =
        [\<lparr>page_url = home_url, tag_name = ''button'', text_content = ''Partner'',
          href_column = [], onclick = [], other_attributes = ''selector: #out''\<rparr>]\<rparr>"
    using t' [THEN conjunct2, THEN conjunct2, THEN conjunct2, THEN conjunct1]
    by (simp only: d')
  show ?thesis
    by (intro conjI) (rule found urls e1 d1 urls' foreign e2 d2)+
qed

section \<open>Failures of one descriptor\<close>

lemma crawlPage_try_click_failed:
  "click_element env element st = (Inl e, st1) \<Longrightarrow>
   crawlPage_try env url depth element st = (Inl e, st1)"
  by (simp add: crawlPage_try.simps)

text \<open>An exception that leaves the inner \<open>try\<close> block is logged, and the refresh of the
  page is requested next, whatever becomes of the refresh.\<close>

lemma crawlPage_for_caught_events:
  assumes "href info = [] \<or> isSameDomain (new_URL env) url (href info)"
    and "st1 = db_run (insert_clickable_node (node_row url info)) st"
    and "findElement env (browser st1) (selector info) = Inr element"
    and "crawlPage_try env url depth element st1 = (Inl e, st2)"
  shows "\<exists>more. events (snd (crawlPage_for env url depth (info # rest) st)) =
           events st2 @ Console (ErrorProcessing url e) # Did NavigateRefresh # more"
proof -
  let ?s = "console (ErrorProcessing url e) st2"
  obtain r st3 where rw: "refresh_and_wait env url ?s = (r, st3)"
    by (cases "refresh_and_wait env url ?s")
  have "\<exists>m. events st3 = events ?s @ Did NavigateRefresh # m"
    using refresh_and_wait_events [of env url ?s] rw by auto
  then obtain m where
    m: "events st3 = events st2 @ Console (ErrorProcessing url e) # Did NavigateRefresh # m"
    by (auto simp: console_def)
  note caught = crawlPage_for_caught [OF assms, of rest]
  show ?thesis
  proof (cases r)
    case (Inl e')
    with caught rw m show ?thesis by simp
  next
    case (Inr u)
    from reach_events [OF reach_crawl(2) [of env st3 url depth rest]]
    obtain es where "events (snd (crawlPage_for env url depth rest st3)) = events st3 @ es" ..
    with caught rw m Inr show ?thesis by simp
  qed
qed

text \<open>
  C2, as the code has it. For a descriptor that is not skipped as external: an exception
  raised by the re-location is caught and logged, and the loop goes on with the next
  descriptor; the console line is the only effect, no refresh is requested and the
  browser is as it was. An exception raised while scrolling, waiting or clicking leaves
  the inner \<open>try\<close> block, and so does one raised by the branch after the click, whose
  result is the result of the block; every exception that leaves the inner \<open>try\<close> block
  is caught and logged, and the refresh of the page is requested next.
\<close>

theorem crawlPage_for_fault_isolation:
  assumes internal: "href info = [] \<or> isSameDomain (new_URL env) url (href info)"
    and st1: "st1 = db_run (insert_clickable_node (node_row url info)) st"
  shows "(\<forall>e. findElement env (browser st1) (selector info) = Inl e \<longrightarrow>
            crawlPage_for env url depth (info # rest) st =
              crawlPage_for env url depth rest (console (ErrorFinding url e) st1) \<and>
            events (console (ErrorFinding url e) st1) =
              events st @ [Console (ErrorFinding url e)] \<and>
            browser (console (ErrorFinding url e) st1) = browser st) \<and>
         (\<forall>element e st2.
            findElement env (browser st1) (selector info) = Inr element \<and>
            click_element env element st1 = (Inl e, st2) \<longrightarrow>
            crawlPage_try env url depth element st1 = (Inl e, st2)) \<and>
         (\<forall>element currentUrl newUrl st2.
            findElement env (browser st1) (selector info) = Inr element \<and>
            click_element env element st1 = (Inr (currentUrl, newUrl), st2) \<longrightarrow>
            crawlPage_try env url depth element st1 =
              (if newUrl \<noteq> currentUrl \<and> isSameDomain (new_URL env) url newUrl
               then back_and_wait env currentUrl (crawlPage env newUrl (depth + 1) st2)
               else refresh_and_wait env currentUrl st2)) \<and>
         (\<forall>element e st2.
            findElement env (browser st1) (selector info) = Inr element \<and>
            crawlPage_try env url depth element st1 = (Inl e, st2) \<longrightarrow>
            (\<exists>more. events (snd (crawlPage_for env url depth (info # rest) st)) =
               events st2 @ Console (ErrorProcessing url e) # Did NavigateRefresh # more))"
proof (intro conjI allI impI)
  fix e
  assume stale: "findElement env (browser st1) (selector info) = Inl e"
  with internal st1 show "crawlPage_for env url depth (info # rest) st =
      crawlPage_for env url depth rest (console (ErrorFinding url e) st1)"
    by (rule crawlPage_for_stale)
  show "events (console (ErrorFinding url e) st1) = events st @ [Console (ErrorFinding url e)]"
    by (simp add: st1 console_def db_run_def)
  show "browser (console (ErrorFinding url e) st1) = browser st"
    by (simp add: st1 console_def db_run_def)
next
  fix element e st2
  assume "findElement env (browser st1) (selector info) = Inr element \<and>
          click_element env element st1 = (Inl e, st2)"
  then show "crawlPage_try env url depth element st1 = (Inl e, st2)"
    by (simp add: crawlPage_try_click_failed)
next
  fix element currentUrl newUrl st2
  assume "findElement env (browser st1) (selector info) = Inr element \<and>
          click_element env element st1 = (Inr (currentUrl, newUrl), st2)"
  then show "crawlPage_try env url depth element st1 =
      (if newUrl \<noteq> currentUrl \<and> isSameDomain (new_URL env) url newUrl
       then back_and_wait env currentUrl (crawlPage env newUrl (depth + 1) st2)
       else refresh_and_wait env currentUrl st2)"
    by (simp add: crawlPage_try.simps)
next
  fix element e st2
  assume "findElement env (browser st1) (selector info) = Inr element \<and>
          crawlPage_try env url depth element st1 = (Inl e, st2)"
  then have found: "findElement env (browser st1) (selector info) = Inr element"
    and failed: "crawlPage_try env url depth element st1 = (Inl e, st2)"
    by simp_all
  from internal st1 found failed
  show "\<exists>more. events (snd (crawlPage_for env url depth (info # rest) st)) =
      events st2 @ Console (ErrorProcessing url e) # Did NavigateRefresh # more"
    by (rule crawlPage_for_caught_events)
qed

theorem crawlPage_for_fault_isolation_witness:
  "fst (crawlPage_try (site_env catalogue) home_url 0 (home_url, [0, 2, 0, 2])
     (db_run (insert_clickable_node (node_row home_url help_info)) (showing home_url))) =
     Inl ''timeout: element not visible'' \<and>
   (\<exists>more.
      events (snd (crawlPage_for (site_env catalogue) home_url 0 [help_info, go_info]
        (showing home_url))) =
      [Did (ScrollIntoView (home_url, [0, 2, 0, 2])), Did (WaitVisible (home_url, [0, 2, 0, 2])),
       Console (ErrorProcessing home_url ''timeout: element not visible''),
       Did NavigateRefresh] @ more) \<and>
   fst (crawlPage_try (site_env shop) home_url 0 (home_url, [0, 1, 0])
     (db_run (insert_clickable_node (node_row home_url partner_info)) (showing home_url))) =
     Inl ''timeout: url'' \<and>
   (\<exists>more.
      events (snd (crawlPage_for (site_env shop) home_url 0 [partner_info, more_info]
        (showing home_url))) =
      [Did (ScrollIntoView (home_url, [0, 1, 0])), Did (WaitVisible (home_url, [0, 1, 0])),
       Did (WaitEnabled (home_url, [0, 1, 0])), Did (Click (home_url, [0, 1, 0])), Did Sleep,
       Did NavigateRefresh, Did (WaitUrlIs home_url),
       Console (ErrorProcessing home_url ''timeout: url''),
       Did NavigateRefresh] @ more)"
proof -
  let ?env = "site_env catalogue"
  let ?h = "(home_url, [0, 2, 0, 2])"
  let ?st1 = "db_run (insert_clickable_node (node_row home_url help_info)) (showing home_url)"
  let ?st2 = "snd (crawlPage_try ?env home_url 0 ?h ?st1)"
  let ?e = "''timeout: element not visible''"
  let ?env' = "site_env shop"
  let ?h' = "(home_url, [0, 1, 0])"
  let ?st1' = "db_run (insert_clickable_node (node_row home_url partner_info)) (showing home_url)"
  let ?st2' = "snd (crawlPage_try ?env' home_url 0 ?h' ?st1')"
  let ?e' = "''timeout: url''"
  have internal: "href help_info = [] \<or> isSameDomain (new_URL ?env) home_url (href help_info)"
    unfolding site_env_URL by code_simp
  have found: "findElement ?env (browser ?st1) (selector help_info) = Inr ?h"
    by code_simp
  have thrown: "fst (crawlPage_try ?env home_url 0 ?h ?st1) = Inl ?e"
    by code_simp
  then have failed: "crawlPage_try ?env home_url 0 ?h ?st1 = (Inl ?e, ?st2)"
    by (simp add: prod_eq_iff)
  have ev: "events ?st2 = [Did (ScrollIntoView ?h), Did (WaitVisible ?h)]"
    by code_simp
  have internal': "href partner_info = [] \<or>
      isSameDomain (new_URL ?env') home_url (href partner_info)"
    by (simp add: partner_info_def)
  have found': "findElement ?env' (browser ?st1') (selector partner_info) = Inr ?h'"
    by code_simp
  have thrown': "fst (crawlPage_try ?env' home_url 0 ?h' ?st1') = Inl ?e'"
    by code_simp
  then have failed': "crawlPage_try ?env' home_url 0 ?h' ?st1' = (Inl ?e', ?st2')"
    by (simp add: prod_eq_iff)
  have ev': "events ?st2' =
      [Did (ScrollIntoView ?h'), Did (WaitVisible ?h'), Did (WaitEnabled ?h'),
       Did (Click ?h'), Did Sleep, Did NavigateRefresh, Did (WaitUrlIs home_url)]"
    by code_simp
  note t = crawlPage_for_fault_isolation
    [OF internal refl, where st = "showing home_url" and depth = 0 and rest = "[go_info]"]
  note t' = crawlPage_for_fault_isolation
    [OF internal' refl, where st = "showing home_url" and depth = 0 and rest = "[more_info]"]
  from t [THEN conjunct2, THEN conjunct2, THEN conjunct2] found failed
  have "\<exists>more. events (snd (crawlPage_for ?env home_url 0 [help_info, go_info]
      (showing home_url))) =
      events ?st2 @ Console (ErrorProcessing home_url ?e) # Did NavigateRefresh # more"
    by blast
  then have logged: "\<exists>more. events (snd (crawlPage_for ?env home_url 0 [help_info, go_info]
      (showing home_url))) =
      [Did (ScrollIntoView ?h), Did (WaitVisible ?h), Console (ErrorProcessing home_url ?e),
       Did NavigateRefresh] @ more"
    by (simp only: ev append.simps)
  from t' [THEN conjunct2, THEN conjunct2, THEN conjunct2] found' failed'
  have "\<exists>more. events (snd (crawlPage_for ?env' home_url 0 [partner_info, more_info]
      (showing home_url))) =
      events ?st2' @ Console (ErrorProcessing home_url ?e') # Did NavigateRefresh # more"
    by blast
  then have logged': "\<exists>more. events (snd (crawlPage_for ?env' home_url 0
      [partner_info, more_info] (showing home_url))) =
      [Did (ScrollIntoView ?h'), Did (WaitVisible ?h'), Did (WaitEnabled ?h'),
       Did (Click ?h'), Did Sleep, Did NavigateRefresh, Did (WaitUrlIs home_url),
       Console (ErrorProcessing home_url ?e'), Did NavigateRefresh] @ more"
    by (simp only: ev' append.simps)
  from thrown logged thrown' logged' show ?thesis
    by (intro conjI)
qed

text \<open>
  C2 as stated fails on a page whose first descriptor is stale and whose second
  descriptor is a button that leaves the site: no refresh follows the failed
  re-location, and the exception of the recovery after the click ends the loop before
  the third descriptor is stored or tried.
\<close>

theorem crawlPage_for_fault_isolation_counterexample:
  "crawlPage_for (site_env shop) home_url 0 [gone_info, partner_info, more_info]
     (showing home_url) =
   (Inl ''timeout: url'',
    \<lparr>browser = \<lparr>location = ''https://b.example/'', history = [home_url, ''about:blank'']\<rparr>,
     visitedUrls = {},
     db = \<lparr>visited_urls = [], page_contents = [],
           clickable_nodes =
             [\<lparr>page_url = home_url, tag_name = ''button'', text_content = ''Old'',
               href_column = [], onclick = [], other_attributes = ''selector: #gone''\<rparr>,
              \<lparr>page_url = home_url, tag_name = ''button'', text_content = ''Partner'',
               href_column = [], onclick = [], other_attributes = ''selector: #out''\<rparr>]\<rparr>,
     events =
       [Console (ErrorFinding home_url ''no such element''),
        Did (ScrollIntoView (home_url, [0, 1, 0])), Did (WaitVisible (home_url, [0, 1, 0])),
        Did (WaitEnabled (home_url, [0, 1, 0])), Did (Click (home_url, [0, 1, 0])), Did Sleep,
        Did NavigateRefresh, Did (WaitUrlIs home_url),
        Console (ErrorProcessing home_url ''timeout: url''),
        Did NavigateRefresh, Did (WaitUrlIs home_url)]\<rparr>) \<and>
   node_row home_url more_info \<notin>
     set (clickable_nodes (db (snd (crawlPage_for (site_env shop) home_url 0
       [gone_info, partner_info, more_info] (showing home_url)))))"
  by code_simp

text \<open>
  C3, as the code has it. For a descriptor that is not skipped as external and whose
  selector fails to re-locate an element, the error is logged and the loop goes on with
  the next descriptor. The console line is the only effect: no refresh is requested, the
  browser is as it was, and the database holds the row of the descriptor.
\<close>

theorem crawlPage_for_stale_selector:
  assumes internal: "href info = [] \<or> isSameDomain (new_URL env) url (href info)"
    and st1: "st1 = db_run (insert_clickable_node (node_row url info)) st"
    and stale: "findElement env (browser st1) (selector info) = Inl e"
  shows "crawlPage_for env url depth (info # rest) st =
           crawlPage_for env url depth rest (console (ErrorFinding url e) st1) \<and>
         events (console (ErrorFinding url e) st1) = events st @ [Console (ErrorFinding url e)] \<and>
         browser (console (ErrorFinding url e) st1) = browser st \<and>
         visitedUrls (console (ErrorFinding url e) st1) = visitedUrls st \<and>
         db (console (ErrorFinding url e) st1) = insert_clickable_node (node_row url info) (db st)"
  using crawlPage_for_stale [OF internal st1 stale, of depth rest]
  by (simp add: st1 console_def db_run_def)

theorem crawlPage_for_stale_selector_witness:
  "findElement (site_env catalogue)
     (browser (db_run (insert_clickable_node (node_row home_url gone_info)) (showing home_url)))
     (selector gone_info) = Inl ''no such element'' \<and>
   crawlPage_for (site_env catalogue) home_url 0 [gone_info, go_info] (showing home_url) =
     crawlPage_for (site_env catalogue) home_url 0 [go_info]
       (console (ErrorFinding home_url ''no such element'')
         (db_run (insert_clickable_node (node_row home_url gone_info)) (showing home_url))) \<and>
   events (console (ErrorFinding home_url ''no such element'')
       (db_run (insert_clickable_node (node_row home_url gone_info)) (showing home_url))) =
     [Console (ErrorFinding home_url ''no such element'')]"
proof -
  let ?env = "site_env catalogue"
  let ?st1 = "db_run (insert_clickable_node (node_row home_url gone_info)) (showing home_url)"
  have internal: "href gone_info = [] \<or> isSameDomain (new_URL ?env) home_url (href gone_info)"
    by (simp add: gone_info_def)
  have stale: "findElement ?env (browser ?st1) (selector gone_info) = Inl ''no such element''"
    by code_simp
  have ev: "events (showing home_url) = []"
    by (simp add: showing_def fresh_def)
  note t = crawlPage_for_stale_selector
    [OF internal refl stale, where depth = 0 and rest = "[go_info]"]
  from t [THEN conjunct1] t [THEN conjunct2, THEN conjunct1] stale ev show ?thesis
    by (simp only: append_Nil simp_thms)
qed

text \<open>
  C3 as stated fails on the first page of the site: after the stale descriptor, the next
  command sent to the browser is the scroll to the next descriptor, not a refresh.
\<close>

theorem crawlPage_for_stale_selector_counterexample:
  "events (snd (crawlPage_for (site_env catalogue) home_url 0 [gone_info, go_info]
     (showing home_url))) =
   [Console (ErrorFinding home_url ''no such element''),
    Did (ScrollIntoView (home_url, [0, 2, 1])), Did (WaitVisible (home_url, [0, 2, 1])),
    Did (WaitEnabled (home_url, [0, 2, 1])), Did (Click (home_url, [0, 2, 1])), Did Sleep,
    Did NavigateRefresh, Did (WaitUrlIs home_url)]"
  by code_simp

section \<open>Properties of the domain guard\<close>

text \<open>
  C6. \<open>isSameDomain\<close> parses the reference URL on its own and the candidate URL with the
  reference URL as base. It is true exactly when both parse and the two host names are
  equal as strings; nothing else of the URLs is compared. When the reference or the
  candidate does not parse, the result is false; no exception leaves the function,
  whose result is a plain truth value.
\<close>

theorem isSameDomain_hostnames:
  "(isSameDomain url_new referenceUrl candidateUrl \<longleftrightarrow>
      (\<exists>current newLink.
         url_new referenceUrl None = Inr current \<and>
         url_new candidateUrl (Some referenceUrl) = Inr newLink \<and>
         hostname current = hostname newLink)) \<and>
   (\<forall>e. url_new referenceUrl None = Inl e \<longrightarrow>
      \<not> isSameDomain url_new referenceUrl candidateUrl) \<and>
   (\<forall>e. url_new candidateUrl (Some referenceUrl) = Inl e \<longrightarrow>
      \<not> isSameDomain url_new referenceUrl candidateUrl)"
  by (auto simp: isSameDomain_def split: sum.splits)

theorem isSameDomain_hostnames_witness:
  "isSameDomain simple_URL home_url ''/about/team'' \<and>
   simple_URL ''/about/team'' (Some home_url) =
     Inr \<lparr>protocol = ''https:'', hostname = ''a.example'', pathname = ''/about/team''\<rparr> \<and>
   isSameDomain simple_URL home_url ''http://a.example/x'' \<and>
   \<not> isSameDomain simple_URL home_url ''https://www.a.example/'' \<and>
   simple_URL ''a.example'' None = Inl ''Invalid URL'' \<and>
   \<not> isSameDomain simple_URL ''a.example'' home_url"
proof -
  have r: "simple_URL home_url None =
      Inr \<lparr>protocol = ''https:'', hostname = ''a.example'', pathname = ''/''\<rparr>"
    by code_simp
  have c1: "simple_URL ''/about/team'' (Some home_url) =
     Inr \<lparr>protocol = ''https:'', hostname = ''a.example'', pathname = ''/about/team''\<rparr>"
    by code_simp
  have c2: "simple_URL ''http://a.example/x'' (Some home_url) =
     Inr \<lparr>protocol = ''http:'', hostname = ''a.example'', pathname = ''/x''\<rparr>"
    by code_simp
  have c3: "simple_URL ''https://www.a.example/'' (Some home_url) =
     Inr \<lparr>protocol = ''https:'', hostname = ''www.a.example'', pathname = ''/''\<rparr>"
    by code_simp
  have bad: "simple_URL ''a.example'' None = Inl ''Invalid URL''"
    by code_simp
  have w1: "isSameDomain simple_URL home_url ''/about/team''"
    using isSameDomain_hostnames [of simple_URL home_url "''/about/team''"] r c1 by simp
  have w2: "isSameDomain simple_URL home_url ''http://a.example/x''"
    using isSameDomain_hostnames [of simple_URL home_url "''http://a.example/x''"] r c2 by simp
  have w3: "\<not> isSameDomain simple_URL home_url ''https://www.a.example/''"
    using isSameDomain_hostnames [of simple_URL home_url "''https://www.a.example/''"] r c3
    by simp
  have w4: "\<not> isSameDomain simple_URL ''a.example'' home_url"
    using isSameDomain_hostnames [of simple_URL "''a.example''" home_url] bad by simp
  from w1 c1 w2 w3 bad w4 show ?thesis by (intro conjI)
qed

section \<open>Properties of the element discoverer\<close>

lemma browser_console: "browser (console m st) = browser st"
  by (simp add: console_def)

lemma elementsInfo_described:
  "fst (elementsInfo env es acc st) =
     acc @ List.map_filter
             (\<lambda>e. case describe_element env (browser st) e of
                     Inl err \<Rightarrow> None
                   | Inr info \<Rightarrow> Some info) es"
proof (induction es arbitrary: acc st)
  case Nil
  show ?case by (simp add: map_filter_simps)
next
  case (Cons e es)
  show ?case
    by (cases "describe_element env (browser st) e")
       (simp_all add: Cons.IH map_filter_simps browser_console)
qed

lemma describe_element_fields:
  assumes "describe_element env b element = Inr info"
  shows "getTagName env b element = Inr (tagName info) \<and>
         (\<exists>text. getText env b element = Inr text \<and> textContent info = trim text) \<and>
         (toLowerCase (tagName info) = ''a'' \<or> toLowerCase (tagName info) = ''link'' \<longrightarrow>
            (\<exists>h. getAttribute_href env b element = Inr h \<and>
                 href info = (case h of None \<Rightarrow> [] | Some l \<Rightarrow> l))) \<and>
         (toLowerCase (tagName info) \<noteq> ''a'' \<and> toLowerCase (tagName info) \<noteq> ''link'' \<longrightarrow>
            href info = [])"
  using assms
  by (auto simp: describe_element_def split: sum.splits if_splits prod.splits)

text \<open>
  C7. When \<open>listClickableItems\<close> returns, its list holds, in the order of the matched
  elements, one descriptor for every matched element whose properties could all be
  read. Every descriptor of the list comes from a matched element and holds the tag name
  of the element, the trimmed text of the element, and as href: for the tags \<open>a\<close> and
  \<open>link\<close> (compared in lower case) the href attribute of the element, the empty string
  standing for a missing one; for every other tag the empty string.
\<close>

theorem listClickableItems_descriptors:
  assumes "listClickableItems env st = (Inr infos, st')"
  shows "\<exists>clickableElements.
           findClickable env (browser st) = Inr clickableElements \<and>
           infos = List.map_filter
                     (\<lambda>e. case describe_element env (browser st) e of
                             Inl err \<Rightarrow> None
                           | Inr info \<Rightarrow> Some info) clickableElements \<and>
           (\<forall>info \<in> set infos. \<exists>element \<in> set clickableElements.
              describe_element env (browser st) element = Inr info \<and>
              getTagName env (browser st) element = Inr (tagName info) \<and>
              (\<exists>text. getText env (browser st) element = Inr text \<and>
                      textContent info = trim text) \<and>
              (toLowerCase (tagName info) = ''a'' \<or> toLowerCase (tagName info) = ''link'' \<longrightarrow>
                 (\<exists>h. getAttribute_href env (browser st) element = Inr h \<and>
                      href info = (case h of None \<Rightarrow> [] | Some l \<Rightarrow> l))) \<and>
              (toLowerCase (tagName info) \<noteq> ''a'' \<and> toLowerCase (tagName info) \<noteq> ''link'' \<longrightarrow>
                 href info = []))"
proof (cases "findClickable env (browser st)")
  case (Inl e)
  with assms show ?thesis by (simp add: listClickableItems_def)
next
  case (Inr es)
  let ?f = "\<lambda>e. case describe_element env (browser st) e of
                  Inl err \<Rightarrow> None | Inr info \<Rightarrow> Some info"
  have infos: "infos = List.map_filter ?f es"
    using assms Inr elementsInfo_described [of env es "[]" st]
    by (auto simp: listClickableItems_def split: prod.splits)
  have "\<exists>element \<in> set es. describe_element env (browser st) element = Inr info"
    if "info \<in> set infos" for info
    using that unfolding infos
    by (auto simp: map_filter_def split: sum.splits)
  with describe_element_fields [of env "browser st"] Inr infos show ?thesis
    by (intro exI [of _ es]) blast
qed

theorem listClickableItems_descriptors_witness:
  "fst (listClickableItems (site_env catalogue) (showing home_url)) =
     Inr [next_info, help_info, go_info] \<and>
   (\<exists>element.
      describe_element (site_env catalogue) (browser (showing home_url)) element = Inr next_info \<and>
      getTagName (site_env catalogue) (browser (showing home_url)) element = Inr ''a'' \<and>
      (\<exists>text. getText (site_env catalogue) (browser (showing home_url)) element = Inr text \<and>
         textContent next_info = trim text)) \<and>
   (\<exists>element.
      describe_element (site_env catalogue) (browser (showing home_url)) element = Inr go_info \<and>
      getTagName (site_env catalogue) (browser (showing home_url)) element = Inr ''button'') \<and>
   href go_info = []"
proof -
  let ?env = "site_env catalogue"
  let ?st = "showing home_url"
  have l: "fst (listClickableItems ?env ?st) = Inr [next_info, help_info, go_info]"
    by code_simp
  then have "listClickableItems ?env ?st =
      (Inr [next_info, help_info, go_info], snd (listClickableItems ?env ?st))"
    by (simp add: prod_eq_iff)
  note t = listClickableItems_descriptors [OF this]
  have es: "findClickable ?env (browser ?st) =
      Inr [(home_url, [0, 2, 0, 0]), (home_url, [0, 2, 0, 2]), (home_url, [0, 2, 1])]"
    by code_simp
  from t es
  have each: "\<forall>info \<in> set [next_info, help_info, go_info].
      \<exists>element \<in> set [(home_url, [0, 2, 0, 0]), (home_url, [0, 2, 0, 2]), (home_url, [0, 2, 1])].
              describe_element ?env (browser ?st) element = Inr info \<and>
              getTagName ?env (browser ?st) element = Inr (tagName info) \<and>
              (\<exists>text. getText ?env (browser ?st) element = Inr text \<and>
                      textContent info = trim text) \<and>
              (toLowerCase (tagName info) = ''a'' \<or> toLowerCase (tagName info) = ''link'' \<longrightarrow>
                 (\<exists>h. getAttribute_href ?env (browser ?st) element = Inr h \<and>
                      href info = (case h of None \<Rightarrow> [] | Some l \<Rightarrow> l))) \<and>
              (toLowerCase (tagName info) \<noteq> ''a'' \<and> toLowerCase (tagName info) \<noteq> ''link'' \<longrightarrow>
                 href info = [])"
    by (elim exE conjE) (simp only: sum.inject)
  from each [THEN bspec, of next_info]
  obtain e1 where e1: "describe_element ?env (browser ?st) e1 = Inr next_info"
    "getTagName ?env (browser ?st) e1 = Inr (tagName next_info)"
    "\<exists>text. getText ?env (browser ?st) e1 = Inr text \<and> textContent next_info = trim text"
    by (simp only: list.set_intros) blast
  have tag1: "tagName next_info = ''a''"
    by (simp add: next_info_def)
  from e1 tag1 have first: "\<exists>element.
      describe_element ?env (browser ?st) element = Inr next_info \<and>
      getTagName ?env (browser ?st) element = Inr ''a'' \<and>
      (\<exists>text. getText ?env (browser ?st) element = Inr text \<and> textContent next_info = trim text)"
    by (intro exI [of _ e1]) simp
  from each [THEN bspec, of go_info]
  obtain e3 where e3: "describe_element ?env (browser ?st) e3 = Inr go_info"
    "getTagName ?env (browser ?st) e3 = Inr (tagName go_info)"
    by (simp only: list.set_intros) blast
  have tag3: "tagName go_info = ''button''"
    by (simp add: go_info_def)
  from e3 tag3 have third: "\<exists>element.
      describe_element ?env (browser ?st) element = Inr go_info \<and>
      getTagName ?env (browser ?st) element = Inr ''button''"
    by (intro exI [of _ e3]) simp
  have "href go_info = []"
    by (simp add: go_info_def)
  with l first third show ?thesis by (intro conjI)
qed

section \<open>Where the crawl recurses\<close>

lemma after_click_append:
  "after_click p (a @ b) = (after_click p a \<and> after_click (progress_after p a) b)"
  by (induction p a rule: after_click.induct) auto

lemma after_click_quiet: "(\<forall>u. VisitedAdd u \<notin> set seg) \<Longrightarrow> after_click p seg"
  by (induction p seg rule: after_click.induct) auto

lemma quiet_act: "quiet (act env a)"
  by (simp add: quiet_def act_events)

lemma quiet_query: "quiet (query q)"
  by (simp add: quiet_def query_def)

lemma quiet_succeed: "quiet (succeed v)"
  by (simp add: quiet_def succeed_def)

lemma quiet_and_then:
  assumes "quiet m" and "\<And>v. quiet (f v)"
  shows "quiet (and_then m f)"
  unfolding quiet_def
proof
  fix s
  obtain r t where m: "m s = (r, t)"
    by (cases "m s")
  from assms(1) obtain seg1 where s1: "events t = events s @ seg1" "\<forall>u. VisitedAdd u \<notin> set seg1"
    unfolding quiet_def using m by (metis snd_conv)
  show "\<exists>seg. events (snd (and_then m f s)) = events s @ seg \<and> (\<forall>u. VisitedAdd u \<notin> set seg)"
  proof (cases r)
    case (Inl e)
    with m s1 show ?thesis by (auto simp: and_then_def)
  next
    case (Inr v)
    from assms(2) [of v] obtain seg2 where
      s2: "events (snd (f v t)) = events t @ seg2" "\<forall>u. VisitedAdd u \<notin> set seg2"
      unfolding quiet_def by blast
    have "events (snd (and_then m f s)) = events s @ (seg1 @ seg2)"
      using m Inr s1 s2 by (simp add: and_then_def)
    moreover have "\<forall>u. VisitedAdd u \<notin> set (seg1 @ seg2)"
      using s1 s2 by simp
    ultimately show ?thesis by blast
  qed
qed

lemma quiet_refresh_and_wait: "quiet (refresh_and_wait env u)"
  unfolding refresh_and_wait_def by (intro quiet_and_then quiet_act)

lemma quiet_back_and_wait: "quiet (back_and_wait env u)"
  unfolding back_and_wait_def by (intro quiet_and_then quiet_act)

lemma quiet_click_element: "quiet (click_element env element)"
  unfolding click_element_def by (intro quiet_and_then quiet_act quiet_query quiet_succeed)

lemma elementsInfo_events:
  "\<exists>seg. events (snd (elementsInfo env es acc s)) = events s @ seg \<and>
         (\<forall>u. VisitedAdd u \<notin> set seg)"
proof (induction es arbitrary: acc s)
  case Nil
  show ?case by simp
next
  case (Cons e es)
  show ?case
  proof (cases "describe_element env (browser s) e")
    case (Inl err)
    from Cons.IH [of acc "console (ErrorElement err) s"]
    obtain seg where "events (snd (elementsInfo env es acc (console (ErrorElement err) s))) =
        events s @ (Console (ErrorElement err) # seg)" "\<forall>u. VisitedAdd u \<notin> set seg"
      by (auto simp: console_def)
    with Inl show ?thesis
      by (intro exI [of _ "Console (ErrorElement err) # seg"]) simp
  next
    case (Inr info)
    with Cons.IH [of "acc @ [info]" s] show ?thesis by simp
  qed
qed

lemma quiet_listClickableItems: "quiet (listClickableItems env)"
  unfolding quiet_def
proof
  fix s
  show "\<exists>seg. events (snd (listClickableItems env s)) = events s @ seg \<and>
          (\<forall>u. VisitedAdd u \<notin> set seg)"
  proof (cases "findClickable env (browser s)")
    case (Inl e)
    then show ?thesis by (simp add: listClickableItems_def)
  next
    case (Inr es)
    with elementsInfo_events [of env es "[]" s] show ?thesis
      by (auto simp: listClickableItems_def split: prod.splits)
  qed
qed

lemma quiet_console: "quiet (\<lambda>st. succeed v (console m st))"
  by (simp add: quiet_def succeed_def console_def)

lemma quiet_load_page: "quiet (load_page env url)"
  unfolding load_page_def
  by (intro quiet_and_then quiet_act quiet_query quiet_succeed quiet_listClickableItems
        quiet_console)
     (simp add: quiet_def succeed_def db_run_def)

lemma progress_after_append:
  "progress_after p (a @ b) = progress_after (progress_after p a) b"
  by (induction p a rule: progress_after.induct) auto

lemma follows_clicks_refl: "follows_clicks s s"
  by (simp add: follows_clicks_def)

lemma follows_clicks_trans:
  assumes "follows_clicks s t" "follows_clicks t u"
  shows "follows_clicks s u"
proof -
  from assms obtain a b where "events t = events s @ a" "\<forall>p. after_click p a"
    "events u = events t @ b" "\<forall>p. after_click p b"
    unfolding follows_clicks_def by blast
  then have "events u = events s @ (a @ b)" "\<forall>p. after_click p (a @ b)"
    by (simp_all add: after_click_append)
  then show ?thesis unfolding follows_clicks_def by blast
qed

lemma follows_clicks_quiet:
  assumes "quiet m"
  shows "follows_clicks s (snd (m s))"
proof -
  from assms obtain seg where seg: "events (snd (m s)) = events s @ seg"
    "\<forall>u. VisitedAdd u \<notin> set seg"
    unfolding quiet_def by blast
  from seg(2) have "\<forall>p. after_click p seg"
    by (simp add: after_click_quiet)
  with seg(1) show ?thesis
    unfolding follows_clicks_def by blast
qed

lemma follows_clicks_console: "follows_clicks s (console m s)"
  by (simp add: follows_clicks_def console_def)

lemma follows_clicks_db_run: "follows_clicks s (db_run f s)"
  by (simp add: follows_clicks_def db_run_def)

lemma enters_page_start: "enters_page s (visited_add url s)"
  by (simp add: enters_page_def visited_add_def)

lemma enters_page_refl: "enters_page s s"
  by (simp add: enters_page_def)

lemma enters_page_then:
  assumes "enters_page s t" "follows_clicks t u"
  shows "enters_page s u"
proof -
  from assms obtain a b where "events t = events s @ a" "after_click Paused a"
    "events u = events t @ b" "\<forall>p. after_click p b"
    unfolding follows_clicks_def enters_page_def by blast
  then have "events u = events s @ (a @ b)" "after_click Paused (a @ b)"
    by (simp_all add: after_click_append)
  then show ?thesis unfolding enters_page_def by blast
qed

lemma ends_with_click_then:
  assumes "ends_with_click s t" "enters_page t u"
  shows "follows_clicks s u"
proof -
  from assms obtain a b where "events t = events s @ a"
    "\<forall>p. after_click p a \<and> progress_after p a = Paused"
    "events u = events t @ b" "after_click Paused b"
    unfolding ends_with_click_def enters_page_def by blast
  then have "events u = events s @ (a @ b)" "\<forall>p. after_click p (a @ b)"
    by (simp_all add: after_click_append)
  then show ?thesis unfolding follows_clicks_def by blast
qed

lemma and_then_Inr:
  assumes "and_then m f s = (Inr v, t)"
  obtains w s' where "m s = (Inr w, s')" "f w s' = (Inr v, t)"
  using assms by (auto simp: and_then_def split: prod.splits sum.splits)

lemma act_Inr: "act env a s = (Inr v, t) \<Longrightarrow> events t = events s @ [Did a]"
  using act_events [of env a s] by simp

lemma click_element_ok_events:
  assumes "click_element env element s = (Inr v, t)"
  shows "events t = events s @
           [Did (ScrollIntoView element), Did (WaitVisible element), Did (WaitEnabled element),
            Did (Click element), Did Sleep]"
proof -
  from assms [unfolded click_element_def]
  obtain s1 s2 s3 s4 s5 s6 s7 w1 w2 w3 w4 w5 w6 w7 where
    "act env (ScrollIntoView element) s = (Inr w1, s1)"
    "act env (WaitVisible element) s1 = (Inr w2, s2)"
    "act env (WaitEnabled element) s2 = (Inr w3, s3)"
    "query (getCurrentUrl env) s3 = (Inr w4, s4)"
    "act env (Click element) s4 = (Inr w5, s5)"
    "act env Sleep s5 = (Inr w6, s6)"
    "query (getCurrentUrl env) s6 = (Inr w7, s7)"
    "succeed (w4, w7) s7 = (Inr v, t)"
    by (elim and_then_Inr) blast
  then show ?thesis
    by (auto simp: query_def succeed_def dest!: act_Inr)
qed

lemma ends_with_click_element:
  "click_element env element s = (Inr v, t) \<Longrightarrow> ends_with_click s t"
  unfolding ends_with_click_def
  by (drule click_element_ok_events) simp

lemma crawl_follows_clicks:
  "enters_page st (crawlPage env url depth st)"
  "follows_clicks st (snd (crawlPage_for env url depth infos st))"
  "follows_clicks st (snd (crawlPage_try env url depth element st))"
proof (induction env url depth st and env url depth infos st and env url depth element st
       rule: crawlPage_crawlPage_for_crawlPage_try.induct)
  case (1 env url depth st)
  show ?case
  proof (cases "url \<in> visitedUrls st \<or> depth > MAX_DEPTH")
    case True
    then show ?thesis by (simp add: crawlPage.simps enters_page_refl)
  next
    case False
    define st0 where "st0 = console (Crawling url depth) (visited_add url st)"
    have r0: "enters_page st st0"
      unfolding st0_def
      by (rule enters_page_then [OF enters_page_start follows_clicks_console])
    obtain r st1 where lp: "load_page env url st0 = (r, st1)"
      by (cases "load_page env url st0")
    have "follows_clicks st0 st1"
      using follows_clicks_quiet [OF quiet_load_page, of st0 env url] lp by simp
    with r0 have r1: "enters_page st st1"
      by (rule enters_page_then)
    show ?thesis
    proof (cases r)
      case (Inl e)
      from r1 follows_clicks_console have "enters_page st (console (ErrorCrawling url e) st1)"
        by (rule enters_page_then)
      with False lp Inl show ?thesis
        by (simp add: crawlPage.simps st0_def [symmetric])
    next
      case (Inr els)
      obtain r2 st2 where cf: "crawlPage_for env url depth els st1 = (r2, st2)"
        by (cases "crawlPage_for env url depth els st1")
      have "follows_clicks st1 st2"
        using "1.IH" [OF False _ Inr, of st1] lp cf by (simp add: st0_def)
      with r1 have r2: "enters_page st st2"
        by (rule enters_page_then)
      from r2 follows_clicks_console have "enters_page st (console (ErrorCrawling url e) st2)" for e
        by (rule enters_page_then)
      with r2 False lp Inr cf show ?thesis
        by (cases r2) (simp_all add: crawlPage.simps st0_def [symmetric])
    qed
  qed
next
  case (2 env url depth st)
  show ?case by (simp add: follows_clicks_refl)
next
  case (3 env url depth info rest st)
  define st1 where "st1 = db_run (insert_clickable_node (node_row url info)) st"
  have r1: "follows_clicks st st1"
    unfolding st1_def by (rule follows_clicks_db_run)
  show ?case
  proof (cases "href info \<noteq> [] \<and> \<not> isSameDomain (new_URL env) url (href info)")
    case True
    then have "crawlPage_for env url depth (info # rest) st = crawlPage_for env url depth rest st1"
      unfolding st1_def by (intro crawlPage_for_external) simp_all
    with "3.IH"(1) [OF st1_def True] r1 show ?thesis
      by (auto intro: follows_clicks_trans)
  next
    case False
    then have int: "href info = [] \<or> isSameDomain (new_URL env) url (href info)"
      by blast
    show ?thesis
    proof (cases "findElement env (browser st1) (selector info)")
      case (Inl e)
      have "follows_clicks st1 (console (ErrorFinding url e) st1)"
        by (rule follows_clicks_console)
      with "3.IH"(2) [OF st1_def False Inl] r1 show ?thesis
        unfolding crawlPage_for_stale [OF int st1_def Inl]
        by (auto intro: follows_clicks_trans)
    next
      case (Inr element)
      obtain r st2 where tr: "crawlPage_try env url depth element st1 = (r, st2)"
        by (cases "crawlPage_try env url depth element st1")
      have r2: "follows_clicks st st2"
        using "3.IH"(3) [OF st1_def False Inr] tr r1 by (auto intro: follows_clicks_trans)
      show ?thesis
      proof (cases r)
        case ok: (Inr u)
        with tr have tr': "crawlPage_try env url depth element st1 = (Inr u, st2)"
          by simp
        from "3.IH"(5) [OF st1_def False Inr tr [symmetric] ok] r2 show ?thesis
          unfolding crawlPage_for_clicked [OF int st1_def Inr tr']
          by (auto intro: follows_clicks_trans)
      next
        case err: (Inl e)
        with tr have tr': "crawlPage_try env url depth element st1 = (Inl e, st2)"
          by simp
        define st2' where "st2' = console (ErrorProcessing url e) st2"
        obtain r' st3 where rw: "refresh_and_wait env url st2' = (r', st3)"
          by (cases "refresh_and_wait env url st2'")
        have "follows_clicks st2' st3"
          using follows_clicks_quiet [OF quiet_refresh_and_wait, of st2' env url] rw by simp
        moreover have "follows_clicks st2 st2'"
          unfolding st2'_def by (rule follows_clicks_console)
        ultimately have r3: "follows_clicks st st3"
          using r2 by (auto intro: follows_clicks_trans)
        show ?thesis
        proof (cases r')
          case (Inl e')
          with r3 rw show ?thesis
            unfolding crawlPage_for_caught [OF int st1_def Inr tr']
            by (simp add: st2'_def [symmetric])
        next
          case ok': (Inr u)
          have "follows_clicks st3 (snd (crawlPage_for env url depth rest st3))"
            using "3.IH"(4) [OF st1_def False Inr tr [symmetric] err _ ok', of st3] rw
            by (simp add: st2'_def)
          with r3 rw ok' show ?thesis
            unfolding crawlPage_for_caught [OF int st1_def Inr tr']
            by (auto simp: st2'_def [symmetric] intro: follows_clicks_trans)
        qed
      qed
    qed
  qed
next
  case (4 env url depth element st)
  obtain r st1 where ce: "click_element env element st = (r, st1)"
    by (cases "click_element env element st")
  have r1: "follows_clicks st st1"
    using follows_clicks_quiet [OF quiet_click_element, of st env element] ce by simp
  show ?case
  proof (cases r)
    case (Inl e)
    with ce r1 show ?thesis by (simp add: crawlPage_try.simps)
  next
    case (Inr urls)
    obtain currentUrl newUrl where urls: "urls = (currentUrl, newUrl)"
      by (cases urls)
    show ?thesis
    proof (cases "newUrl \<noteq> currentUrl \<and> isSameDomain (new_URL env) url newUrl")
      case True
      have "enters_page st1 (crawlPage env newUrl (depth + 1) st1)"
        using "4.IH" [OF ce [symmetric] Inr urls [symmetric] True] .
      moreover have "ends_with_click st st1"
        using ce Inr by (auto intro: ends_with_click_element)
      ultimately have "follows_clicks st (crawlPage env newUrl (depth + 1) st1)"
        by (rule ends_with_click_then [rotated])
      moreover have "follows_clicks (crawlPage env newUrl (depth + 1) st1)
          (snd (back_and_wait env currentUrl (crawlPage env newUrl (depth + 1) st1)))"
        by (rule follows_clicks_quiet [OF quiet_back_and_wait])
      ultimately show ?thesis
        using ce Inr urls True
        by (auto simp: crawlPage_try.simps intro: follows_clicks_trans)
    next
      case False
      with follows_clicks_quiet [OF quiet_refresh_and_wait, of st1 env currentUrl] r1 ce Inr urls
      show ?thesis
        by (auto simp: crawlPage_try.simps intro: follows_clicks_trans)
    qed
  qed
qed

lemma recursive_call_of_crawlPage:
  assumes "crawlPage_crawlPage_for_crawlPage_try_rel (Inl (env', url', depth', st')) caller"
  shows "\<exists>url depth element st currentUrl.
           caller = Inr (Inr (env', url, depth, element, st)) \<and>
           click_element env' element st = (Inr (currentUrl, url'), st') \<and>
           url' \<noteq> currentUrl \<and> isSameDomain (new_URL env') url url' \<and> depth' = depth + 1"
  using assms
  by (cases rule: crawlPage_crawlPage_for_crawlPage_try_rel.cases) (auto, metis)

lemma crawlPage_after_loop:
  assumes "url \<notin> visitedUrls st" "depth \<le> MAX_DEPTH"
    and "load_page env url (console (Crawling url depth) (visited_add url st)) = (Inr els, st1)"
    and "crawlPage_for env url depth els st1 = (Inr u, st2)"
  shows "crawlPage env url depth st = st2"
  using assms by (simp add: crawlPage.simps)

text \<open>
  C4, as the code has it. \<open>crawlPage\<close> has no link sweep: when the interaction loop
  ends normally, the state it leaves is the result of \<open>crawlPage\<close>. The only
  recursive call of \<open>crawlPage\<close> is the one of the inner \<open>try\<close> block, made when the
  click on a re-located descriptor has changed the URL of the browser to a URL of the
  same domain, with this URL and the depth plus one. Hence, in the events of a call that
  passes the admission, the URL of the call is added first, and every later addition
  to the visited set follows a click and its pause directly.
\<close>

theorem crawlPage_recurses_after_click:
  fixes env :: "('b, 'e) env"
  shows
  "(url \<notin> visitedUrls st \<and> depth \<le> MAX_DEPTH \<longrightarrow>
      (\<exists>rest. events (crawlPage env url depth st) = events st @ VisitedAdd url # rest \<and>
         after_click Idle rest)) \<and>
   (\<forall>els st1 st2.
      url \<notin> visitedUrls st \<and> depth \<le> MAX_DEPTH \<and>
      load_page env url (console (Crawling url depth) (visited_add url st)) = (Inr els, st1) \<and>
      crawlPage_for env url depth els st1 = (Inr (), st2) \<longrightarrow>
      crawlPage env url depth st = st2) \<and>
   (\<forall>(env' :: ('b, 'e) env) url' depth' st' caller.
      crawlPage_crawlPage_for_crawlPage_try_rel (Inl (env', url', depth', st')) caller \<longrightarrow>
      (\<exists>url depth element st currentUrl.
         caller = Inr (Inr (env', url, depth, element, st)) \<and>
         click_element env' element st = (Inr (currentUrl, url'), st') \<and>
         url' \<noteq> currentUrl \<and> isSameDomain (new_URL env') url url' \<and> depth' = depth + 1))"
proof (intro conjI allI impI)
  assume a: "url \<notin> visitedUrls st \<and> depth \<le> MAX_DEPTH"
  from crawl_follows_clicks(1) [of st env url depth]
  obtain seg where seg: "events (crawlPage env url depth st) = events st @ seg"
    "after_click Paused seg"
    unfolding enters_page_def by blast
  from crawlPage_enter(2) [of url st depth env] a
  obtain rest where "events (crawlPage env url depth st) =
      events st @ VisitedAdd url # Console (Crawling url depth) # Did (Get url) # rest"
    by blast
  with seg have "seg = VisitedAdd url # Console (Crawling url depth) # Did (Get url) # rest"
    by simp
  with seg show "\<exists>rest. events (crawlPage env url depth st) = events st @ VisitedAdd url # rest \<and>
         after_click Idle rest"
    by auto
next
  fix els st1 st2
  assume "url \<notin> visitedUrls st \<and> depth \<le> MAX_DEPTH \<and>
      load_page env url (console (Crawling url depth) (visited_add url st)) = (Inr els, st1) \<and>
      crawlPage_for env url depth els st1 = (Inr (), st2)"
  then show "crawlPage env url depth st = st2"
    by (intro crawlPage_after_loop [of url st depth env els st1 "()"]) simp_all
next
  fix env' :: "('b, 'e) env" and url' depth' st' caller
  assume "crawlPage_crawlPage_for_crawlPage_try_rel (Inl (env', url', depth', st')) caller"
  then show "\<exists>url depth element st currentUrl.
         caller = Inr (Inr (env', url, depth, element, st)) \<and>
         click_element env' element st = (Inr (currentUrl, url'), st') \<and>
         url' \<noteq> currentUrl \<and> isSameDomain (new_URL env') url url' \<and> depth' = depth + 1"
    by (rule recursive_call_of_crawlPage)
qed


theorem crawlPage_recurses_after_click_witness:
  "home_url \<notin> visitedUrls fresh \<and> 0 \<le> MAX_DEPTH \<and>
   (\<exists>rest. events (crawlPage (site_env catalogue) home_url 0 fresh) =
      VisitedAdd home_url # rest \<and> after_click Idle rest)"
proof -
  have a: "home_url \<notin> visitedUrls fresh \<and> 0 \<le> MAX_DEPTH"
    by (simp add: fresh_def)
  have e: "events fresh = []"
    by (simp add: fresh_def)
  from crawlPage_recurses_after_click [of home_url fresh 0 "site_env catalogue", THEN conjunct1] a
  have "\<exists>rest. events (crawlPage (site_env catalogue) home_url 0 fresh) =
      events fresh @ VisitedAdd home_url # rest \<and> after_click Idle rest"
    by (rule mp)
  with a e show ?thesis by simp
qed

text \<open>
  C4 as stated fails on the example site: the first page has an anchor with an href of
  the same domain that is never visited, as the anchor is hidden and cannot be clicked.
  A sweep over the anchors would have crawled it at depth 1.
\<close>

theorem crawlPage_link_sweep_counterexample:
  "fst (listClickableItems (site_env catalogue) (showing home_url)) =
     Inr [next_info, help_info, go_info] \<and>
   tagName help_info = ''a'' \<and>
   href help_info = ''https://a.example/help'' \<and>
   isSameDomain simple_URL home_url ''https://a.example/help'' \<and>
   0 + 1 \<le> MAX_DEPTH \<and>
   visitedUrls (crawlPage (site_env catalogue) home_url 0 fresh) =
     {home_url, ''https://a.example/next''} \<and>
   ''https://a.example/help'' \<notin> visitedUrls (crawlPage (site_env catalogue) home_url 0 fresh)"
proof -
  have 1: "fst (listClickableItems (site_env catalogue) (showing home_url)) =
     Inr [next_info, help_info, go_info]"
    by code_simp
  have 2: "tagName help_info = ''a'' \<and> href help_info = ''https://a.example/help''"
    by (simp add: help_info_def)
  have 3: "isSameDomain simple_URL home_url ''https://a.example/help''"
    by code_simp
  have 4: "0 + 1 \<le> MAX_DEPTH"
    by (simp add: MAX_DEPTH_def)
  have 5: "visitedUrls (crawlPage (site_env catalogue) home_url 0 fresh) =
     {home_url, ''https://a.example/next''}"
    by code_simp
  then have 6: "''https://a.example/help'' \<notin>
      visitedUrls (crawlPage (site_env catalogue) home_url 0 fresh)"
    by simp
  from 1 2 3 4 5 6 show ?thesis by (intro conjI) simp_all
qed

end
